theory Spec2Isabelle
  imports Complex_Main
begin

section \<open>Media items and the helpers of slide-show.media\<close>

text \<open>
  \<^verbatim>\<open>type MediaItem = { type: "image" | "video"; src: string; muted?: boolean }\<close>.
  The optional field is an option.
\<close>

datatype MediaType = Image | Video

record MediaItem =
  type :: MediaType
  src :: string
  muted :: "bool option"

text \<open>\<^verbatim>\<open>keyOf(item) = `${item.type}:${item.src}`\<close>\<close>

definition keyOf :: "MediaItem \<Rightarrow> string" where
  "keyOf it = (case type it of Image \<Rightarrow> ''image'' | Video \<Rightarrow> ''video'') @ '':'' @ src it"

text \<open>
  The remainder operator \<^verbatim>\<open>%\<close> of JavaScript on integral numbers: the result has
  the sign of the dividend. (A zero divisor gives NaN in JavaScript; every use in the
  component is guarded by a test that the divisor is positive.)
\<close>

definition js_rem :: "int \<Rightarrow> int \<Rightarrow> int" where
  "js_rem a b = sgn a * (\<bar>a\<bar> mod \<bar>b\<bar>)"

text \<open>\<^verbatim>\<open>nextIndex(i, len) = len <= 0 ? 0 : (i + 1) % len\<close>\<close>

definition nextIndex :: "int \<Rightarrow> int \<Rightarrow> int" where
  "nextIndex i len = (if len \<le> 0 then 0 else js_rem (i + 1) len)"

section \<open>JavaScript arrays\<close>

text \<open>
  An array whose every element is defined is a list; reading outside it gives
  \<^verbatim>\<open>undefined\<close>, which is \<open>None\<close>.
\<close>

definition js_at :: "'a list \<Rightarrow> int \<Rightarrow> 'a option" where
  "js_at xs i = (if 0 \<le> i \<and> i < int (length xs) then Some (xs ! nat i) else None)"

text \<open>
  The array \<^verbatim>\<open>arr\<close> of the shuffle is read and written through computed indices.
  Its elements are options: \<open>None\<close> is \<^verbatim>\<open>undefined\<close> (or a hole). A write at a
  negative index sets a property that is no element: it leaves the elements and the
  length alone, and a later read at that index gives the value back. So an array is its
  elements and its properties at negative keys. A write at or beyond the length extends
  the array.
\<close>

type_synonym 'a js_array = "'a option list \<times> (int \<Rightarrow> 'a option)"

definition js_get :: "'a js_array \<Rightarrow> int \<Rightarrow> 'a option" where
  "js_get arr i =
     (if i < 0 then snd arr i
      else if i < int (length (fst arr)) then fst arr ! nat i
      else None)"

definition js_set :: "'a js_array \<Rightarrow> int \<Rightarrow> 'a option \<Rightarrow> 'a js_array" where
  "js_set arr i v =
     (if i < 0 then (fst arr, (snd arr)(i := v))
      else if i < int (length (fst arr)) then ((fst arr)[nat i := v], snd arr)
      else (fst arr @ replicate (nat i - length (fst arr)) None @ [v], snd arr))"

text \<open>\<^verbatim>\<open>[arr[i], arr[j]] = [arr[j], arr[i]]\<close>: both reads, then the two writes in order.\<close>

definition js_swap :: "'a js_array \<Rightarrow> int \<Rightarrow> int \<Rightarrow> 'a js_array" where
  "js_swap arr i j =
     (let a = js_get arr j; b = js_get arr i
      in js_set (js_set arr i a) j b)"

section \<open>The playback order\<close>

text \<open>
  \<^verbatim>\<open>
  const order = useMemo(() => {
    const arr = items.map((_, i) => i);
    if (!shuffle) return arr;
    let s = shuffleSeed || 1;
    for (let i = arr.length - 1; i > 0; i--) {
      s = (s * 9301 + 49297) % 233280;
      const r = s / 233280;
      const j = Math.floor(r * (i + 1));
      [arr[i], arr[j]] = [arr[j], arr[i]];
    }
    return arr;
  }, [items, shuffle, shuffleSeed]);
  \<close>
  The seed is an integral number, and \<^verbatim>\<open>s * 9301 + 49297\<close> is computed exactly, as the
  code does for seeds of magnitude up to about 9.7e11 (beyond that the double rounds).
  The two floating-point operations of the loop body,
  \<^verbatim>\<open>Math.floor((s / 233280) * (i + 1))\<close>, are the parameter \<open>draw s (i + 1)\<close>;
  \<open>exact_draw\<close> is their value in exact arithmetic. (In double precision the product
  can round so that the floor is one less than the exact one, from lists of 45 items
  on; what is proved for every \<open>draw\<close> holds for the rounded one as well.)
\<close>

type_synonym draw = "int \<Rightarrow> int \<Rightarrow> int"

definition exact_draw :: draw where
  "exact_draw s n = (s * n) div 233280"

fun fisher_yates :: "draw \<Rightarrow> nat \<Rightarrow> int \<Rightarrow> nat js_array \<Rightarrow> nat js_array" where
  "fisher_yates draw 0 s arr = arr"
| "fisher_yates draw (Suc k) s arr =
     (let i = int (Suc k);
          s' = js_rem (s * 9301 + 49297) 233280;
          j = draw s' (i + 1)
      in fisher_yates draw k s' (js_swap arr i j))"

definition order_of :: "draw \<Rightarrow> 'a list \<Rightarrow> bool \<Rightarrow> int \<Rightarrow> nat option list" where
  "order_of draw items shuffle shuffleSeed =
     (let arr = map Some [0 ..< length items]
      in if \<not> shuffle then arr
         else fst (fisher_yates draw (length arr - 1) (if shuffleSeed = 0 then 1 else shuffleSeed)
                (arr, \<lambda>k. None)))"

section \<open>The state of the Slideshow component\<close>

text \<open>
  \<^verbatim>\<open>type IncomingState = { idx: number; item: MediaItem; key: string; ready: boolean }\<close>
  and the two state cells \<^verbatim>\<open>const [idx, setIdx] = useState(0)\<close>,
  \<^verbatim>\<open>const [incoming, setIncoming] = useState<IncomingState | null>(null)\<close>
  (the cell \<^verbatim>\<open>idx\<close> is the field \<open>shown\<close>).
\<close>

record IncomingState =
  idx :: int
  item :: MediaItem
  key :: string
  ready :: bool

record engine =
  shown :: int
  incoming :: "IncomingState option"

definition init_engine :: engine where
  "init_engine = \<lparr>shown = 0, incoming = None\<rparr>"

text \<open>
  The values every render derives from the props and the state:
  \<^verbatim>\<open>
  const safeLen = order.length;
  const shownIdx = safeLen ? ((idx % safeLen) + safeLen) % safeLen : 0;
  const shownItem = safeLen ? (items[order[shownIdx] ?? 0] ?? null) : null;
  \<close>
\<close>

definition safeLen :: "nat option list \<Rightarrow> int" where
  "safeLen order = int (length order)"

definition wrap_index :: "int \<Rightarrow> int \<Rightarrow> int" where
  "wrap_index i len = js_rem (js_rem i len + len) len"

definition shownIdx :: "nat option list \<Rightarrow> engine \<Rightarrow> int" where
  "shownIdx order s = (if safeLen order \<noteq> 0 then wrap_index (shown s) (safeLen order) else 0)"

text \<open>
  \<^verbatim>\<open>items[order[i] ?? 0]\<close>, for \<open>i\<close> that is not negative (the two uses pass a wrapped
  index): the order is read as an array of elements that may be undefined.
\<close>

definition order_at :: "nat option list \<Rightarrow> int \<Rightarrow> nat option" where
  "order_at order i = (if 0 \<le> i \<and> i < int (length order) then order ! nat i else None)"

definition item_at :: "MediaItem list \<Rightarrow> nat option list \<Rightarrow> int \<Rightarrow> MediaItem option" where
  "item_at items order i =
     js_at items (case order_at order i of None \<Rightarrow> 0 | Some k \<Rightarrow> int k)"

definition shownItem :: "MediaItem list \<Rightarrow> nat option list \<Rightarrow> engine \<Rightarrow> MediaItem option" where
  "shownItem items order s =
     (if safeLen order \<noteq> 0 then item_at items order (shownIdx order s) else None)"

definition shownIsImage :: "MediaItem list \<Rightarrow> nat option list \<Rightarrow> engine \<Rightarrow> bool" where
  "shownIsImage items order s =
     (case shownItem items order s of None \<Rightarrow> False | Some it \<Rightarrow> type it = Image)"

definition shownIsVideo :: "MediaItem list \<Rightarrow> nat option list \<Rightarrow> engine \<Rightarrow> bool" where
  "shownIsVideo items order s =
     (case shownItem items order s of None \<Rightarrow> False | Some it \<Rightarrow> type it = Video)"

definition shownKey :: "MediaItem list \<Rightarrow> nat option list \<Rightarrow> engine \<Rightarrow> string" where
  "shownKey items order s =
     (case shownItem items order s of None \<Rightarrow> [] | Some it \<Rightarrow> keyOf it)"

text \<open>
  \<^verbatim>\<open>
  const scheduleNext = (nextI: number) => {
    if (!safeLen) return;
    if (incoming) return;
    const ni = ((nextI % safeLen) + safeLen) % safeLen;
    const it = items[order[ni] ?? 0];
    if (!it) return;
    setIncoming({ idx: ni, item: it, key: keyOf(it), ready: false });
  };
  const goNext = () => {
    if (!safeLen) return;
    scheduleNext(nextIndex(shownIdx, safeLen));
  };
  const handleVideoEnded = () => {
    if (!playing) return;
    if (incoming) return;
    goNext();
  };
  \<close>
\<close>

definition scheduleNext :: "MediaItem list \<Rightarrow> nat option list \<Rightarrow> int \<Rightarrow> engine \<Rightarrow> engine" where
  "scheduleNext items order nextI s =
     (if safeLen order = 0 then s
      else if incoming s \<noteq> None then s
      else let ni = wrap_index nextI (safeLen order)
           in case item_at items order ni of
                None \<Rightarrow> s
              | Some it \<Rightarrow> s\<lparr>incoming := Some \<lparr>idx = ni, item = it, key = keyOf it, ready = False\<rparr>\<rparr>)"

definition goNext :: "MediaItem list \<Rightarrow> nat option list \<Rightarrow> engine \<Rightarrow> engine" where
  "goNext items order s =
     (if safeLen order = 0 then s
      else scheduleNext items order (nextIndex (shownIdx order s) (safeLen order)) s)"

definition handleVideoEnded :: "MediaItem list \<Rightarrow> nat option list \<Rightarrow> bool \<Rightarrow> engine \<Rightarrow> engine" where
  "handleVideoEnded items order playing s =
     (if \<not> playing then s
      else if incoming s \<noteq> None then s
      else goNext items order s)"

text \<open>
  The body of the advance timer's callback, with \<open>due\<close> the outcome of its clock test:
  \<^verbatim>\<open>if (!incoming && now + 6 >= dueRef.current) { goNext(); ... }\<close>
\<close>

definition tick :: "MediaItem list \<Rightarrow> nat option list \<Rightarrow> bool \<Rightarrow> engine \<Rightarrow> engine" where
  "tick items order due s = (if incoming s = None \<and> due then goNext items order s else s)"

text \<open>
  The state update of \<^verbatim>\<open>markReady\<close>,
  \<^verbatim>\<open>setIncoming((p) => (p && !p.ready ? { ...p, ready: true } : p))\<close>,
  and the callback of the commit timer,
  \<^verbatim>\<open>setIdx(incoming.idx); setIncoming(null)\<close>.
\<close>

definition set_ready :: "IncomingState option \<Rightarrow> IncomingState option" where
  "set_ready p = (case p of
       None \<Rightarrow> None
     | Some i \<Rightarrow> if \<not> ready i then Some (i\<lparr>ready := True\<rparr>) else Some i)"

definition markReady :: "bool \<Rightarrow> engine \<Rightarrow> engine" where
  "markReady cancelled s = (if cancelled then s else s\<lparr>incoming := set_ready (incoming s)\<rparr>)"

definition commit :: "IncomingState \<Rightarrow> engine \<Rightarrow> engine" where
  "commit inc s = s\<lparr>shown := idx inc, incoming := None\<rparr>"

section \<open>The motion table of slide.motion\<close>

text \<open>
  \<^verbatim>\<open>type TransitionMode = "crossfade" | "slide" | "flip" | "zoom" | "pan"\<close>. A target
  of framer-motion is an object of optional visual parameters; the five that the table
  uses are the fields, \<open>opacity\<close> being present in every row.
\<close>

datatype TransitionMode = Crossfade | Slide | Flip | Zoom | Pan

record Target =
  opacity :: real
  x :: "real option"
  rotateY :: "real option"
  scale :: "real option"
  transformPerspective :: "real option"

record MotionTriplet =
  initial :: Target
  animate :: Target
  exit :: Target

definition target :: "real \<Rightarrow> Target" where
  "target op = \<lparr>opacity = op, x = None, rotateY = None, scale = None, transformPerspective = None\<rparr>"

definition getMotionTriplet :: "TransitionMode \<Rightarrow> bool \<Rightarrow> bool \<Rightarrow> MotionTriplet" where
  "getMotionTriplet mode isImage kenBurns =
     (if mode = Slide then
        \<lparr>initial = (target 0)\<lparr>x := Some 60\<rparr>,
         animate = (target 1)\<lparr>x := Some 0\<rparr>,
         exit = (target 0)\<lparr>x := Some (- 60)\<rparr>\<rparr>
      else if mode = Flip then
        \<lparr>initial = (target 0)\<lparr>rotateY := Some (- 70), x := Some 40, transformPerspective := Some 1200\<rparr>,
         animate = (target 1)\<lparr>rotateY := Some 0, x := Some 0, transformPerspective := Some 1200\<rparr>,
         exit = (target 0)\<lparr>rotateY := Some 70, x := Some (- 40), transformPerspective := Some 1200\<rparr>\<rparr>
      else if mode = Zoom then
        \<lparr>initial = (target 0)\<lparr>scale := Some 0.97\<rparr>,
         animate = (target 1)\<lparr>scale := Some 1\<rparr>,
         exit = (target 0)\<lparr>scale := Some 1.03\<rparr>\<rparr>
      else if mode = Pan then
        \<lparr>initial = (target 0)\<lparr>x := Some 24\<rparr>,
         animate = (target 1)\<lparr>x := Some 0\<rparr>,
         exit = (target 0)\<lparr>x := Some (- 24)\<rparr>\<rparr>
      else
        \<lparr>initial = (target 0)\<lparr>scale := Some (if isImage \<and> kenBurns then 1.03 else 1)\<rparr>,
         animate = (target 1)\<lparr>scale := Some 1\<rparr>,
         exit = (target 0)\<lparr>scale := Some (if isImage \<and> kenBurns then 1.01 else 1)\<rparr>\<rparr>)"

text \<open>
  The table of required mappings as the specification words it, row by row, with
  enter, settled and exit as \<open>initial\<close>, \<open>animate\<close> and \<open>exit\<close>: the flip row gives
  the perspective for the enter state only.
\<close>

definition required_mapping :: "TransitionMode \<Rightarrow> bool \<Rightarrow> bool \<Rightarrow> MotionTriplet" where
  "required_mapping mode isImage kenBurns = (case mode of
       Crossfade \<Rightarrow>
        \<lparr>initial = (target 0)\<lparr>scale := Some (if isImage \<and> kenBurns then 1.03 else 1)\<rparr>,
         animate = (target 1)\<lparr>scale := Some 1\<rparr>,
         exit = (target 0)\<lparr>scale := Some (if isImage \<and> kenBurns then 1.01 else 1)\<rparr>\<rparr>
     | Slide \<Rightarrow>
        \<lparr>initial = (target 0)\<lparr>x := Some 60\<rparr>,
         animate = (target 1)\<lparr>x := Some 0\<rparr>,
         exit = (target 0)\<lparr>x := Some (- 60)\<rparr>\<rparr>
     | Flip \<Rightarrow>
        \<lparr>initial = (target 0)\<lparr>rotateY := Some (- 70), x := Some 40, transformPerspective := Some 1200\<rparr>,
         animate = (target 1)\<lparr>rotateY := Some 0, x := Some 0\<rparr>,
         exit = (target 0)\<lparr>rotateY := Some 70, x := Some (- 40)\<rparr>\<rparr>
     | Zoom \<Rightarrow>
        \<lparr>initial = (target 0)\<lparr>scale := Some 0.97\<rparr>,
         animate = (target 1)\<lparr>scale := Some 1\<rparr>,
         exit = (target 0)\<lparr>scale := Some 1.03\<rparr>\<rparr>
     | Pan \<Rightarrow>
        \<lparr>initial = (target 0)\<lparr>x := Some 24\<rparr>,
         animate = (target 1)\<lparr>x := Some 0\<rparr>,
         exit = (target 0)\<lparr>x := Some (- 24)\<rparr>\<rparr>)"

text \<open>The same table with the perspective of the flip row on its three states.\<close>

definition with_perspective :: "MotionTriplet \<Rightarrow> MotionTriplet" where
  "with_perspective m =
     m\<lparr>animate := (animate m)\<lparr>transformPerspective := Some 1200\<rparr>,
       exit := (exit m)\<lparr>transformPerspective := Some 1200\<rparr>\<rparr>"

section \<open>The App component\<close>

text \<open>
  The state cells of \<^verbatim>\<open>App\<close>, and the state of the \<^verbatim>\<open>Slideshow\<close> it mounts as
  \<^verbatim>\<open><Slideshow key={engineKey} items={items} ... shuffle={false} shuffleSeed={0} />\<close>.
\<close>

record App =
  app_items :: "MediaItem list"
  app_playing :: bool
  app_intervalSec :: real
  app_transitionMode :: TransitionMode
  settingsOpen :: bool
  engineKey :: nat
  slideshow :: engine

text \<open>
  The handlers of \<^verbatim>\<open>App\<close>: the continuation of \<^verbatim>\<open>loadMediaItems()\<close>
  (\<^verbatim>\<open>setItems(list); bumpEngine()\<close>; its \<^verbatim>\<open>cancelled\<close> flag is set only when \<^verbatim>\<open>App\<close>
  itself unmounts), \<^verbatim>\<open>openSettings\<close>, and the callbacks handed to the
  settings sheet and to the slideshow; \<^verbatim>\<open>onIntervalSec\<close> is
  \<^verbatim>\<open>(v) => { setIntervalSec(v); bumpEngine(); }\<close> and \<^verbatim>\<open>bumpEngine\<close> is
  \<^verbatim>\<open>setEngineKey((k) => k + 1)\<close>.
\<close>

datatype app_event =
    MediaLoaded "MediaItem list"
  | OpenSettings
  | CloseSettings
  | SetPlaying bool
  | OnIntervalSec real
  | OnTransitionMode TransitionMode

definition bumpEngine :: "App \<Rightarrow> App" where
  "bumpEngine a = a\<lparr>engineKey := engineKey a + 1\<rparr>"

fun app_handler :: "app_event \<Rightarrow> App \<Rightarrow> App" where
  "app_handler (MediaLoaded list) a = bumpEngine (a\<lparr>app_items := list\<rparr>)"
| "app_handler OpenSettings a = a\<lparr>settingsOpen := True\<rparr>"
| "app_handler CloseSettings a = a\<lparr>settingsOpen := False\<rparr>"
| "app_handler (SetPlaying v) a = a\<lparr>app_playing := v\<rparr>"
| "app_handler (OnIntervalSec v) a = bumpEngine (a\<lparr>app_intervalSec := v\<rparr>)"
| "app_handler (OnTransitionMode m) a = a\<lparr>app_transitionMode := m\<rparr>"

text \<open>
  The render after a handler: React keeps the state of a child whose key is the one of
  the previous render, and mounts a fresh instance, with the initial values of its
  \<^verbatim>\<open>useState\<close> cells, when the key differs.
\<close>

definition app_step :: "app_event \<Rightarrow> App \<Rightarrow> App" where
  "app_step ev a =
     (let a' = app_handler ev a
      in if engineKey a' \<noteq> engineKey a then a'\<lparr>slideshow := init_engine\<rparr> else a')"

section \<open>The mounted Slideshow: effects and timers\<close>

text \<open>
  The file slide-show.tsx holds two implementations of the component. They share the
  state cells, \<^verbatim>\<open>scheduleNext\<close>, \<^verbatim>\<open>goNext\<close>, the state update of \<^verbatim>\<open>markReady\<close> and
  the callback of the commit timer, and differ in the effects: the first one
  (\<open>Defensive\<close>) gives a video 4500 ms, pauses the shown video in the commit effect and
  plays it from a zero-delay timer that depends on \<^verbatim>\<open>incoming?.ready\<close>; the second
  one (\<open>Plain\<close>) gives a video 4000 ms, clears the fallback timer inside \<^verbatim>\<open>markReady\<close>
  and plays the shown video directly.
\<close>

datatype variant = Defensive | Plain

text \<open>\<^verbatim>\<open>const timeoutMs = incoming.item.type === "video" ? 4500 : 2000\<close> (4000 in the second).\<close>

fun timeoutMs :: "variant \<Rightarrow> MediaType \<Rightarrow> nat" where
  "timeoutMs Defensive Video = 4500"
| "timeoutMs Plain Video = 4000"
| "timeoutMs v Image = 2000"

text \<open>The props that stay fixed while the component is mounted, and the memoised order.\<close>

record config =
  cfg_items :: "MediaItem list"
  cfg_order :: "nat option list"
  cfg_variant :: variant

text \<open>The calls the component makes on \<^verbatim>\<open>activeVideoRef.current\<close>.\<close>

datatype vcall = Play | Pause

text \<open>
  The mounted component: the two state cells, the prop \<^verbatim>\<open>playing\<close> of the last
  render, the clock in milliseconds, and what its effects hold between renders:
  \<^item> the readiness probe (dependencies \<^verbatim>\<open>[incoming?.key]\<close>): whether an instance is live
    (its \<^verbatim>\<open>cancelled\<close> is false), the number of instances started so far, which names
    the live one to its callbacks, and the due time of its \<^verbatim>\<open>fallback\<close> timer;
  \<^item> the commit effect (dependencies \<^verbatim>\<open>[incoming?.ready, incoming?.idx, shownIsVideo]\<close>):
    the due time of its timer and the \<^verbatim>\<open>incoming\<close> its callback closes over;
  \<^item> the play effect of the shown video: whether its zero-delay timer is pending;
  \<^item> the calls made so far on the shown video.
\<close>

record mounted =
  eng :: engine
  now_playing :: bool
  clock :: nat
  probe_live :: bool
  probe_gen :: nat
  fallback :: "nat option"
  commit_timer :: "(nat \<times> IncomingState) option"
  play_timer :: bool
  video_calls :: "vcall list"

definition ready_now :: "mounted \<Rightarrow> bool" where
  "ready_now s = (case incoming (eng s) of None \<Rightarrow> False | Some i \<Rightarrow> ready i)"

definition is_video_shown :: "config \<Rightarrow> mounted \<Rightarrow> bool" where
  "is_video_shown cfg s = shownIsVideo (cfg_items cfg) (cfg_order cfg) (eng s)"

text \<open>The dependency arrays, \<^verbatim>\<open>undefined\<close> being \<open>None\<close>.\<close>

definition probe_deps :: "mounted \<Rightarrow> string option" where
  "probe_deps s = map_option key (incoming (eng s))"

definition commit_deps :: "config \<Rightarrow> mounted \<Rightarrow> bool option \<times> int option \<times> bool" where
  "commit_deps cfg s =
     (map_option ready (incoming (eng s)), map_option idx (incoming (eng s)),
      cfg_variant cfg = Defensive \<and> is_video_shown cfg s)"

definition play_deps :: "config \<Rightarrow> mounted \<Rightarrow> bool \<times> bool \<times> string \<times> bool option" where
  "play_deps cfg s =
     (now_playing s, is_video_shown cfg s, shownKey (cfg_items cfg) (cfg_order cfg) (eng s),
      if cfg_variant cfg = Defensive then map_option ready (incoming (eng s)) else None)"

text \<open>
  The readiness probe. Its body returns at once when there is no incoming; otherwise it
  starts an instance and arms \<^verbatim>\<open>setTimeout(markReady, timeoutMs)\<close>. Its cleanup sets
  \<^verbatim>\<open>cancelled\<close> and clears the timer. (The incoming video element is rendered with the
  incoming item, so \<^verbatim>\<open>incomingVideoRef.current\<close> is set when the body runs.)
\<close>

definition probe_cleanup :: "mounted \<Rightarrow> mounted" where
  "probe_cleanup s = s\<lparr>probe_live := False, fallback := None\<rparr>"

definition probe_body :: "config \<Rightarrow> mounted \<Rightarrow> mounted" where
  "probe_body cfg s = (case incoming (eng s) of
       None \<Rightarrow> s
     | Some i \<Rightarrow> s\<lparr>probe_live := True, probe_gen := probe_gen s + 1,
                    fallback := Some (clock s + timeoutMs (cfg_variant cfg) (type (item i)))\<rparr>)"

text \<open>
  The commit effect:
  \<^verbatim>\<open>
  if (!incoming?.ready) return;
  if (shownIsVideo && activeVideoRef.current) activeVideoRef.current.pause();
  const t = setTimeout(() => { setIdx(incoming.idx); setIncoming(null); }, 560);
  return () => clearTimeout(t);
  \<close>
  The second implementation has no pause. The shown video element is rendered exactly
  when the shown item is a video, so \<^verbatim>\<open>activeVideoRef.current\<close> is set exactly then.
\<close>

definition commit_cleanup :: "mounted \<Rightarrow> mounted" where
  "commit_cleanup s = s\<lparr>commit_timer := None\<rparr>"

definition commit_body :: "config \<Rightarrow> mounted \<Rightarrow> mounted" where
  "commit_body cfg s = (case incoming (eng s) of
       None \<Rightarrow> s
     | Some i \<Rightarrow>
         if \<not> ready i then s
         else (if cfg_variant cfg = Defensive \<and> is_video_shown cfg s
               then s\<lparr>video_calls := video_calls s @ [Pause]\<rparr> else s)
              \<lparr>commit_timer := Some (clock s + 560, i)\<rparr>)"

text \<open>
  The play effect of the shown video. First implementation:
  \<^verbatim>\<open>
  if (!el || !shownIsVideo) return;
  if (!playing || incoming?.ready) { el.pause(); return; }
  const t = setTimeout(() => { el.play() ... }, 0);
  return () => clearTimeout(t);
  \<close>
  Second implementation: \<^verbatim>\<open>if (!playing) { el.pause(); return; } el.play()\<close>, no cleanup.
\<close>

definition play_cleanup :: "config \<Rightarrow> mounted \<Rightarrow> mounted" where
  "play_cleanup cfg s = (if cfg_variant cfg = Defensive then s\<lparr>play_timer := False\<rparr> else s)"

definition play_body :: "config \<Rightarrow> mounted \<Rightarrow> mounted" where
  "play_body cfg s =
     (if \<not> is_video_shown cfg s then s
      else if cfg_variant cfg = Defensive then
        (if \<not> now_playing s \<or> ready_now s then s\<lparr>video_calls := video_calls s @ [Pause]\<rparr>
         else s\<lparr>play_timer := True\<rparr>)
      else
        (if \<not> now_playing s then s\<lparr>video_calls := video_calls s @ [Pause]\<rparr>
         else s\<lparr>video_calls := video_calls s @ [Play]\<rparr>))"

text \<open>
  The render after a state or prop change, from the state \<open>old\<close> of the previous render
  to \<open>new\<close>: React runs the cleanups of the effects whose dependencies changed, in the
  order of the effects, and then their bodies, in the same order.
\<close>

definition run_if :: "bool \<Rightarrow> ('a \<Rightarrow> 'a) \<Rightarrow> 'a \<Rightarrow> 'a" where
  "run_if b f s = (if b then f s else s)"

definition flush :: "config \<Rightarrow> mounted \<Rightarrow> mounted \<Rightarrow> mounted" where
  "flush cfg old new =
     (let p = probe_deps new \<noteq> probe_deps old;
          c = commit_deps cfg new \<noteq> commit_deps cfg old;
          y = play_deps cfg new \<noteq> play_deps cfg old
      in run_if y (play_body cfg)
          (run_if c (commit_body cfg)
            (run_if p (probe_body cfg)
              (run_if y (play_cleanup cfg)
                (run_if c commit_cleanup
                  (run_if p probe_cleanup new))))))"

text \<open>
  What reaches the component from outside. A callback of the probe arrives with the
  number of the instance that registered it and with what happened: the image decoded
  (\<^verbatim>\<open>onload\<close>, then two animation frames), the image failed (\<^verbatim>\<open>onerror\<close>), the video was
  primed (the end of the \<^verbatim>\<open>try\<close> block) or a step of the priming threw (the
  \<^verbatim>\<open>catch\<close> block); all four end in \<^verbatim>\<open>markReady\<close>.

  The events:
  \<^item> \<open>Ms\<close>: one millisecond passes;
  \<^item> \<open>AdvanceTick due\<close>: the callback of the advance timer runs, \<open>due\<close> being the outcome
    of its clock test;
  \<^item> \<open>VideoEnded\<close>: the shown video element, which exists when the shown item is a
    video, fires \<^verbatim>\<open>ended\<close>;
  \<^item> \<open>Advance\<close>: a manual advance, \<^verbatim>\<open>goNext()\<close>;
  \<^item> \<open>ProbeDone g out\<close>: the callback of probe instance \<open>g\<close> described above;
  \<^item> \<open>PlayingProp v\<close>: the parent renders the component with \<^verbatim>\<open>playing = v\<close>;
  \<^item> \<open>PlayTimer\<close>: the zero-delay timer of the play effect fires.

  A render takes no time, and a timer fires in the millisecond in which it is due.
\<close>

datatype outcome = Decoded | DecodeError | Primed | Threw

fun outcome_type :: "outcome \<Rightarrow> MediaType" where
  "outcome_type Decoded = Image"
| "outcome_type DecodeError = Image"
| "outcome_type Primed = Video"
| "outcome_type Threw = Video"

datatype event =
    Ms
  | AdvanceTick bool
  | VideoEnded
  | Advance
  | ProbeDone nat outcome
  | PlayingProp bool
  | PlayTimer

text \<open>
  The advance timer (dependencies
  \<^verbatim>\<open>[playing, shownIsImage, intervalSec, safeLen, shownIdx, incoming?.key]\<close>) is armed
  when its body passes its three guards; its callback runs only then.
\<close>

definition timer_armed :: "config \<Rightarrow> mounted \<Rightarrow> bool" where
  "timer_armed cfg s =
     (now_playing s \<and> shownIsImage (cfg_items cfg) (cfg_order cfg) (eng s)
      \<and> 1 < safeLen (cfg_order cfg) \<and> incoming (eng s) = None)"

text \<open>
  A callback of the probe. \<^verbatim>\<open>cancelled\<close> is true for every instance but the live one.
  The video path of the first implementation ends in \<^verbatim>\<open>finally { clearTimeout(fallback) }\<close>;
  \<^verbatim>\<open>markReady\<close> of the second one clears the timer itself. This is the part of the
  callback that touches the state of the component; the calls that the priming makes
  on the incoming video element (\<^verbatim>\<open>pause\<close>, \<^verbatim>\<open>currentTime = 0\<close>, \<^verbatim>\<open>play\<close>) are not part of
  \<open>video_calls\<close>, which records the calls of the effects on \<^verbatim>\<open>activeVideoRef.current\<close>.
\<close>

definition probe_done :: "config \<Rightarrow> nat \<Rightarrow> outcome \<Rightarrow> mounted \<Rightarrow> mounted" where
  "probe_done cfg g out s = (case incoming (eng s) of
       None \<Rightarrow> s
     | Some i \<Rightarrow>
         if \<not> (probe_live s \<and> g = probe_gen s \<and> outcome_type out = type (item i)) then s
         else (if cfg_variant cfg = Plain \<or> outcome_type out = Video then s\<lparr>fallback := None\<rparr> else s)
              \<lparr>eng := markReady False (eng s)\<rparr>)"

fun handler :: "config \<Rightarrow> event \<Rightarrow> mounted \<Rightarrow> mounted" where
  "handler cfg Ms s = s"
| "handler cfg (AdvanceTick due) s =
     (if timer_armed cfg s then s\<lparr>eng := tick (cfg_items cfg) (cfg_order cfg) due (eng s)\<rparr> else s)"
| "handler cfg VideoEnded s =
     (if is_video_shown cfg s
      then s\<lparr>eng := handleVideoEnded (cfg_items cfg) (cfg_order cfg) (now_playing s) (eng s)\<rparr>
      else s)"
| "handler cfg Advance s = s\<lparr>eng := goNext (cfg_items cfg) (cfg_order cfg) (eng s)\<rparr>"
| "handler cfg (ProbeDone g out) s = probe_done cfg g out s"
| "handler cfg (PlayingProp v) s = s\<lparr>now_playing := v\<rparr>"
| "handler cfg PlayTimer s =
     (if play_timer s then s\<lparr>play_timer := False, video_calls := video_calls s @ [Play]\<rparr> else s)"

text \<open>
  One millisecond passes and the timers that are due fire, the older one first: the
  fallback timer calls \<^verbatim>\<open>markReady\<close>, the commit timer
  \<^verbatim>\<open>setIdx(incoming.idx); setIncoming(null)\<close>; a render follows each.
\<close>

definition fire_fallback :: "config \<Rightarrow> mounted \<Rightarrow> mounted" where
  "fire_fallback cfg s =
     (if fallback s = Some (clock s)
      then flush cfg (s\<lparr>fallback := None\<rparr>)
             (s\<lparr>fallback := None, eng := markReady (\<not> probe_live s) (eng s)\<rparr>)
      else s)"

definition fire_commit :: "config \<Rightarrow> mounted \<Rightarrow> mounted" where
  "fire_commit cfg s = (case commit_timer s of
       None \<Rightarrow> s
     | Some (due, i) \<Rightarrow>
         if due = clock s
         then flush cfg (s\<lparr>commit_timer := None\<rparr>)
                (s\<lparr>commit_timer := None, eng := commit i (eng s)\<rparr>)
         else s)"

definition step :: "config \<Rightarrow> event \<Rightarrow> mounted \<Rightarrow> mounted" where
  "step cfg e s =
     (if e = Ms then fire_commit cfg (fire_fallback cfg (s\<lparr>clock := clock s + 1\<rparr>))
      else flush cfg s (handler cfg e s))"

fun run :: "config \<Rightarrow> event list \<Rightarrow> mounted \<Rightarrow> mounted" where
  "run cfg [] s = s"
| "run cfg (e # es) s = run cfg es (step cfg e s)"

text \<open>The first state of a run in which the incoming is ready, if there is one.\<close>

fun until_ready :: "config \<Rightarrow> event list \<Rightarrow> mounted \<Rightarrow> mounted option" where
  "until_ready cfg [] s = (if ready_now s then Some s else None)"
| "until_ready cfg (e # es) s = (if ready_now s then Some s else until_ready cfg es (step cfg e s))"

section \<open>Invariants of the shuffle\<close>

text \<open>
  What the order needs of the floating-point draw: for \<open>s\<close> below the modulus it stays
  below its second argument (\<open>r < 1\<close>, so \<open>r * (i + 1) < i + 1\<close>). The values of an
  array are those of its elements and of its properties.
\<close>

definition bounded_draw :: "draw \<Rightarrow> bool" where
  "bounded_draw d = (\<forall>s n. s < 233280 \<and> 0 < n \<longrightarrow> d s n < n)"

definition vals :: "'a js_array \<Rightarrow> 'a option set" where
  "vals arr = insert None (set (fst arr) \<union> range (snd arr))"

text \<open>
  For \<open>s\<close> from 0 up to the modulus the draw is an index from 0 up to its second
  argument (\<open>0 \<le> r < 1\<close>).
\<close>

definition ranged_draw :: "draw \<Rightarrow> bool" where
  "ranged_draw d = (\<forall>s n. 0 \<le> s \<and> s < 233280 \<and> 0 < n \<longrightarrow> 0 \<le> d s n \<and> d s n < n)"

section \<open>The phases of a transition\<close>

text \<open>
  While the probe runs: the incoming \<open>inc\<close> is staged and not ready, the probe is live,
  its fallback timer is due at \<open>d\<close>, which is still ahead, and no commit timer is armed.
\<close>

definition probing :: "mounted \<Rightarrow> IncomingState \<Rightarrow> nat \<Rightarrow> bool" where
  "probing s inc d \<longleftrightarrow>
     incoming (eng s) = Some inc \<and> \<not> ready inc \<and> probe_live s \<and> fallback s = Some d
     \<and> clock s < d \<and> commit_timer s = None"

text \<open>
  During the hold: the state cells are \<open>E\<close>, whose incoming \<open>inc\<close> is ready, and the commit
  timer, closed over \<open>inc\<close>, is due at \<open>due\<close>, which is still ahead. The hold is quiet
  when no play of the shown video is pending.
\<close>

definition holding :: "mounted \<Rightarrow> engine \<Rightarrow> IncomingState \<Rightarrow> nat \<Rightarrow> bool" where
  "holding s E inc due \<longleftrightarrow>
     eng s = E \<and> incoming E = Some inc \<and> ready inc \<and> commit_timer s = Some (due, inc)
     \<and> clock s < due"

definition quiet :: "mounted \<Rightarrow> engine \<Rightarrow> IncomingState \<Rightarrow> nat \<Rightarrow> bool" where
  "quiet s E inc due \<longleftrightarrow> holding s E inc due \<and> \<not> play_timer s"

text \<open>
  The render in which \<open>inc\<close> became ready: \<open>s'\<close> is the flush of a state update that set
  the flag and changed neither the prop \<^verbatim>\<open>playing\<close> nor the calls made so far.
\<close>

definition ready_render :: "config \<Rightarrow> mounted \<Rightarrow> IncomingState \<Rightarrow> mounted \<Rightarrow> bool" where
  "ready_render cfg s inc s' \<longleftrightarrow>
     (\<exists>old new. s' = flush cfg old new
            \<and> eng old = eng s \<and> eng new = (eng s)\<lparr>incoming := Some (inc\<lparr>ready := True\<rparr>)\<rparr>
            \<and> now_playing old = now_playing s \<and> now_playing new = now_playing s
            \<and> video_calls new = video_calls s)"

section \<open>A two-item slideshow\<close>

text \<open>
  A video followed by an image, in list order, first implementation; the idle state
  that shows the video, and the state in which the image is staged and being probed.
\<close>

definition demo_cfg :: config where
  "demo_cfg = \<lparr>cfg_items = [\<lparr>type = Video, src = ''a'', muted = Some True\<rparr>,
                              \<lparr>type = Image, src = ''b'', muted = None\<rparr>],
               cfg_order = [Some 0, Some 1], cfg_variant = Defensive\<rparr>"

definition demo_staged :: IncomingState where
  "demo_staged = \<lparr>idx = 1, item = \<lparr>type = Image, src = ''b'', muted = None\<rparr>,
                  key = ''image:b'', ready = False\<rparr>"

definition demo_idle :: mounted where
  "demo_idle = \<lparr>eng = \<lparr>shown = 0, incoming = None\<rparr>, now_playing = True, clock = 0,
                probe_live = False, probe_gen = 0, fallback = None, commit_timer = None,
                play_timer = False, video_calls = [Play]\<rparr>"

definition demo_probing :: mounted where
  "demo_probing = \<lparr>eng = \<lparr>shown = 0, incoming = Some demo_staged\<rparr>, now_playing = True, clock = 0,
                probe_live = True, probe_gen = 1, fallback = Some 2000, commit_timer = None,
                play_timer = False, video_calls = [Play]\<rparr>"

section \<open>Index arithmetic and the shape of the order\<close>

lemma js_rem_nonneg: "0 \<le> a \<Longrightarrow> 0 < b \<Longrightarrow> js_rem a b = a mod b"
  by (cases "a = 0") (simp_all add: js_rem_def)

lemma js_rem_neg: "a < 0 \<Longrightarrow> 0 < b \<Longrightarrow> js_rem a b = - ((- a) mod b)"
  by (simp add: js_rem_def)

lemma js_rem_upper: "0 < b \<Longrightarrow> js_rem a b < b"
proof (cases "0 \<le> a")
  case True
  assume "0 < b"
  then show ?thesis using True by (simp add: js_rem_nonneg)
next
  case False
  assume b: "0 < b"
  have m: "0 \<le> (- a) mod b" using b by simp
  have "js_rem a b = - ((- a) mod b)" using False b by (simp add: js_rem_neg)
  then show ?thesis using m b by linarith
qed

lemma wrap_index_mod: "0 < len \<Longrightarrow> wrap_index i len = i mod len"
proof (cases "0 \<le> i")
  case True
  assume "0 < len"
  then show ?thesis using True by (simp add: wrap_index_def js_rem_nonneg)
next
  case False
  assume len: "0 < len"
  have neg: "i < 0" using False by simp
  have bound: "(- i) mod len < len" using len by simp
  have "0 \<le> - ((- i) mod len) + len" using bound by simp
  then have "wrap_index i len = (- ((- i) mod len) + len) mod len"
    using neg len by (simp add: wrap_index_def js_rem_neg js_rem_nonneg)
  also have "\<dots> = (- ((- i) mod len)) mod len" by simp
  also have "\<dots> = (- (- i)) mod len" by (rule mod_minus_eq)
  finally show ?thesis by simp
qed

lemma nextIndex_mod: "0 \<le> i \<Longrightarrow> 0 < len \<Longrightarrow> nextIndex i len = (i + 1) mod len"
  by (simp add: nextIndex_def js_rem_nonneg)

lemma length_js_set: "i < int (length (fst arr)) \<Longrightarrow> length (fst (js_set arr i v)) = length (fst arr)"
  by (simp add: js_set_def)

lemma vals_js_set: "i < int (length (fst arr)) \<Longrightarrow> vals (js_set arr i v) \<subseteq> insert v (vals arr)"
  by (auto simp add: js_set_def vals_def dest: set_update_subset_insert[THEN subsetD] split: if_splits)

lemma js_get_in: "js_get arr i \<in> vals arr"
  by (auto simp add: js_get_def vals_def)

lemma js_swap_shape:
  assumes "i < int (length (fst arr))" "j < int (length (fst arr))"
  shows "length (fst (js_swap arr i j)) = length (fst arr) \<and> vals (js_swap arr i j) \<subseteq> vals arr"
proof -
  let ?m = "js_set arr i (js_get arr j)"
  have l: "length (fst ?m) = length (fst arr)" by (rule length_js_set[OF assms(1)])
  have a: "vals ?m \<subseteq> vals arr"
    using vals_js_set[OF assms(1), of "js_get arr j"] js_get_in[of arr j] by auto
  have j': "j < int (length (fst ?m))" using assms(2) l by simp
  have "vals (js_set ?m j (js_get arr i)) \<subseteq> vals arr"
    using vals_js_set[OF j', of "js_get arr i"] a js_get_in[of arr i] by auto
  then show ?thesis using length_js_set[OF j', of "js_get arr i"] l
    by (simp add: js_swap_def Let_def)
qed

lemma fisher_yates_shape:
  "bounded_draw d \<Longrightarrow> k < length (fst arr) \<Longrightarrow>
   length (fst (fisher_yates d k s arr)) = length (fst arr) \<and> vals (fisher_yates d k s arr) \<subseteq> vals arr"
proof (induction k arbitrary: s arr)
  case 0
  then show ?case by simp
next
  case (Suc k)
  let ?s = "js_rem (s * 9301 + 49297) 233280"
  let ?j = "d ?s (int (Suc k) + 1)"
  let ?a = "js_swap arr (int (Suc k)) ?j"
  have sb: "?s < 233280" by (rule js_rem_upper) simp
  have jb: "?j < int (Suc k) + 1" using Suc.prems(1) sb by (simp add: bounded_draw_def)
  have i: "int (Suc k) < int (length (fst arr))" using Suc.prems(2) by simp
  have j: "?j < int (length (fst arr))" using jb i by linarith
  have sw: "length (fst ?a) = length (fst arr) \<and> vals ?a \<subseteq> vals arr"
    by (rule js_swap_shape[OF i j])
  have k: "k < length (fst ?a)" using sw Suc.prems(2) by simp
  from Suc.IH[OF Suc.prems(1) k, of ?s] sw
  show ?case by (auto simp add: Let_def)
qed

lemma order_of_shape:
  assumes "bounded_draw d"
  shows "length (order_of d items sh seed) = length items
       \<and> set (order_of d items sh seed) \<subseteq> insert None (Some ` {..< length items})"
proof (cases "items = [] \<or> \<not> sh")
  case True
  then show ?thesis by (cases sh) (auto simp add: order_of_def)
next
  case False
  let ?arr = "(map Some [0 ..< length items], \<lambda>k::int. None::nat option)"
  have v: "vals ?arr = insert None (Some ` {..< length items})" by (auto simp add: vals_def)
  have "length (fst ?arr) - 1 < length (fst ?arr)" using False by simp
  from fisher_yates_shape[OF assms this] v
  have "length (fst (fisher_yates d (length (fst ?arr) - 1) (if seed = 0 then 1 else seed) ?arr)) = length items
      \<and> vals (fisher_yates d (length (fst ?arr) - 1) (if seed = 0 then 1 else seed) ?arr)
          \<subseteq> insert None (Some ` {..< length items})" by simp
  then show ?thesis using False by (auto simp add: order_of_def Let_def vals_def)
qed

lemma bounded_exact_draw: "bounded_draw exact_draw"
  unfolding bounded_draw_def exact_draw_def
proof (intro allI impI)
  fix s n :: int
  assume s: "s < 233280 \<and> 0 < n"
  then have "s * n < n * 233280" by simp
  then show "s * n div 233280 < n" by simp
qed

lemma item_at_defined:
  assumes "items \<noteq> []" "set order \<subseteq> insert None (Some ` {..< length items})"
  shows "\<exists>it. item_at items order i = Some it \<and> it \<in> set items"
proof (cases "order_at order i")
  case None
  then show ?thesis using assms(1) by (simp add: item_at_def js_at_def)
next
  case (Some k)
  then have "0 \<le> i \<and> nat i < length order \<and> order ! nat i = Some k"
    by (auto simp add: order_at_def split: if_splits)
  then have "Some k \<in> set order" using nth_mem[of "nat i" order] by auto
  then have "k < length items" using assms(2) by auto
  then show ?thesis using Some by (simp add: item_at_def js_at_def)
qed

lemma js_swap_in_range:
  assumes "0 \<le> i" "i < int (length (fst arr))" "0 \<le> j" "j < int (length (fst arr))"
  shows "js_swap arr i j = ((fst arr)[nat i := fst arr ! nat j, nat j := fst arr ! nat i], snd arr)"
  using assms by (simp add: js_swap_def js_get_def js_set_def Let_def)

lemma fisher_yates_permutes:
  "ranged_draw d \<Longrightarrow> 0 \<le> s \<Longrightarrow> k < length (fst arr) \<Longrightarrow>
   length (fst (fisher_yates d k s arr)) = length (fst arr)
   \<and> set (fst (fisher_yates d k s arr)) = set (fst arr)
   \<and> distinct (fst (fisher_yates d k s arr)) = distinct (fst arr)"
proof (induction k arbitrary: s arr)
  case 0
  then show ?case by simp
next
  case (Suc k)
  define s' where "s' = js_rem (s * 9301 + 49297) 233280"
  define j where "j = d s' (int (Suc k) + 1)"
  define a where "a = js_swap arr (int (Suc k)) j"
  have "0 \<le> s * 9301 + 49297" using Suc.prems(2) by simp
  then have sm: "s' = (s * 9301 + 49297) mod 233280" by (simp add: s'_def js_rem_nonneg)
  have sr: "0 \<le> s' \<and> s' < 233280" unfolding sm by simp
  have jr: "0 \<le> j \<and> j < int (Suc k) + 1" using Suc.prems(1) sr by (simp add: ranged_draw_def j_def)
  have i: "0 \<le> int (Suc k)" "int (Suc k) < int (length (fst arr))" using Suc.prems(3) by simp_all
  have jl: "0 \<le> j" "j < int (length (fst arr))" using jr i by linarith+
  have ni: "nat (int (Suc k)) < length (fst arr)" "nat j < length (fst arr)" using i jl by simp_all
  have sw: "a = ((fst arr)[nat (int (Suc k)) := fst arr ! nat j, nat j := fst arr ! nat (int (Suc k))], snd arr)"
    unfolding a_def by (rule js_swap_in_range[OF i jl])
  have a1: "length (fst a) = length (fst arr)" by (simp add: sw)
  have a2: "set (fst a) = set (fst arr)" using ni by (simp add: sw set_swap)
  have a3: "distinct (fst a) = distinct (fst arr)" using ni by (simp add: sw distinct_swap)
  have k: "k < length (fst a)" using a1 Suc.prems(3) by simp
  from Suc.IH[OF Suc.prems(1) _ k, of s'] sr a1 a2 a3
  show ?case by (simp add: Let_def s'_def j_def a_def)
qed

lemma ranged_exact_draw: "ranged_draw exact_draw"
  unfolding ranged_draw_def exact_draw_def
proof (intro allI impI)
  fix s n :: int
  assume s: "0 \<le> s \<and> s < 233280 \<and> 0 < n"
  then have "s * n < n * 233280" by simp
  then have "s * n div 233280 < n" by simp
  moreover have "0 \<le> s * n div 233280" using s by (simp add: pos_imp_zdiv_nonneg_iff)
  ultimately show "0 \<le> s * n div 233280 \<and> s * n div 233280 < n" by simp
qed

section \<open>Stage requests while a transition is in flight\<close>

text \<open>
  C1. In every state whose \<open>incoming\<close> is not null, a further stage request leaves the
  state as it is: \<open>scheduleNext\<close> at any position, \<open>goNext\<close> (the manual advance), the
  handler of the video's ended event and the callback of the advance timer.
\<close>

theorem stage_request_dropped_while_pending:
  assumes "incoming s \<noteq> None"
  shows "scheduleNext items order n s = s
       \<and> goNext items order s = s
       \<and> handleVideoEnded items order playing s = s
       \<and> tick items order due s = s"
  using assms by (auto simp add: scheduleNext_def goNext_def handleVideoEnded_def tick_def)

theorem stage_request_dropped_while_pending_witness:
  "incoming \<lparr>shown = 0, incoming = Some \<lparr>idx = 1, item = \<lparr>type = Image, src = ''b'', muted = None\<rparr>,
        key = ''image:b'', ready = False\<rparr>\<rparr> \<noteq> None
   \<and> scheduleNext [\<lparr>type = Image, src = ''a'', muted = None\<rparr>, \<lparr>type = Image, src = ''b'', muted = None\<rparr>]
        [Some 0, Some 1] 0
        \<lparr>shown = 0, incoming = Some \<lparr>idx = 1, item = \<lparr>type = Image, src = ''b'', muted = None\<rparr>,
          key = ''image:b'', ready = False\<rparr>\<rparr>
     = \<lparr>shown = 0, incoming = Some \<lparr>idx = 1, item = \<lparr>type = Image, src = ''b'', muted = None\<rparr>,
          key = ''image:b'', ready = False\<rparr>\<rparr>"
  using stage_request_dropped_while_pending
    [of "\<lparr>shown = 0, incoming = Some \<lparr>idx = 1, item = \<lparr>type = Image, src = ''b'', muted = None\<rparr>,
          key = ''image:b'', ready = False\<rparr>\<rparr>"
        "[\<lparr>type = Image, src = ''a'', muted = None\<rparr>, \<lparr>type = Image, src = ''b'', muted = None\<rparr>]"
        "[Some 0, Some 1]" 0]
  by simp

section \<open>Advance selection\<close>

text \<open>
  C4. For every media list of length \<open>L \<ge> 1\<close>, every playback order computed from it
  (shuffled or not, with any seed) and every value of the position cell, an advance
  made while nothing is staged stages exactly the position \<open>(i + 1) mod L\<close>, where
  \<open>i\<close> is the current order index \<open>shownIdx\<close> (the position cell modulo \<open>L\<close>), with an
  item of the list and \<open>ready = false\<close>. The staged position does not depend on the
  shuffle flag or the seed, and the advance timer and the ended event advance through
  the same \<open>goNext\<close>.
\<close>

theorem advance_stages_successor:
  assumes d: "bounded_draw d"
      and o: "ord = order_of d items sh seed"
      and n: "items \<noteq> []"
      and i: "incoming s = None"
  shows "shownIdx ord s = shown s mod int (length items)
       \<and> (\<exists>it \<in> set items. goNext items ord s =
             s\<lparr>incoming := Some \<lparr>idx = (shownIdx ord s + 1) mod int (length items), item = it,
                                   key = keyOf it, ready = False\<rparr>\<rparr>)
       \<and> tick items ord True s = goNext items ord s
       \<and> handleVideoEnded items ord True s = goNext items ord s"
proof -
  have len: "length ord = length items" using order_of_shape[OF d, of items sh seed] o by simp
  have L: "0 < safeLen ord" using len n by (simp add: safeLen_def)
  have sl: "safeLen ord = int (length items)" using len by (simp add: safeLen_def)
  have si: "shownIdx ord s = shown s mod int (length items)"
    using L sl by (simp add: shownIdx_def wrap_index_mod)
  then have nn: "0 \<le> shownIdx ord s" using L sl by simp
  have ni: "wrap_index (nextIndex (shownIdx ord s) (safeLen ord)) (safeLen ord)
          = (shownIdx ord s + 1) mod int (length items)"
    using L sl nn by (simp add: wrap_index_mod nextIndex_mod)
  obtain it where it: "item_at items ord ((shownIdx ord s + 1) mod int (length items)) = Some it"
                      "it \<in> set items"
    using item_at_defined[OF n] order_of_shape[OF d, of items sh seed] o by metis
  have "goNext items ord s =
           s\<lparr>incoming := Some \<lparr>idx = (shownIdx ord s + 1) mod int (length items), item = it,
                                 key = keyOf it, ready = False\<rparr>\<rparr>"
    using L i ni it by (simp add: goNext_def scheduleNext_def Let_def)
  then have "\<exists>it \<in> set items. goNext items ord s =
             s\<lparr>incoming := Some \<lparr>idx = (shownIdx ord s + 1) mod int (length items), item = it,
                                   key = keyOf it, ready = False\<rparr>\<rparr>"
    using it(2) by blast
  then show ?thesis using si i by (simp add: tick_def handleVideoEnded_def)
qed

theorem advance_stages_successor_witness:
  "bounded_draw exact_draw
   \<and> shownIdx (order_of exact_draw [\<lparr>type = Image, src = ''a'', muted = None\<rparr>,
               \<lparr>type = Video, src = ''b'', muted = Some True\<rparr>] True 7) \<lparr>shown = 1, incoming = None\<rparr> = 1
   \<and> goNext [\<lparr>type = Image, src = ''a'', muted = None\<rparr>, \<lparr>type = Video, src = ''b'', muted = Some True\<rparr>]
        (order_of exact_draw [\<lparr>type = Image, src = ''a'', muted = None\<rparr>,
               \<lparr>type = Video, src = ''b'', muted = Some True\<rparr>] True 7)
        \<lparr>shown = 1, incoming = None\<rparr>
     = \<lparr>shown = 1, incoming = Some \<lparr>idx = 0, item = \<lparr>type = Video, src = ''b'', muted = Some True\<rparr>,
          key = ''video:b'', ready = False\<rparr>\<rparr>"
proof -
  have o: "order_of exact_draw [\<lparr>type = Image, src = ''a'', muted = None\<rparr>,
               \<lparr>type = Video, src = ''b'', muted = Some True\<rparr>] True 7 = [Some 1, Some 0]"
    by (simp add: order_of_def exact_draw_def js_rem_def js_swap_def js_get_def js_set_def Let_def
        numeral_2_eq_2)
  show ?thesis
    using advance_stages_successor[OF bounded_exact_draw refl,
      of "[\<lparr>type = Image, src = ''a'', muted = None\<rparr>, \<lparr>type = Video, src = ''b'', muted = Some True\<rparr>]"
         "\<lparr>shown = 1, incoming = None\<rparr>" True 7]
    by (simp add: o bounded_exact_draw goNext_def scheduleNext_def safeLen_def shownIdx_def
        wrap_index_def js_rem_def nextIndex_def item_at_def order_at_def js_at_def keyOf_def Let_def)
qed

section \<open>The readiness flag\<close>

text \<open>
  C9. \<open>markReady\<close> changes the state only when it is not cancelled and an incoming
  exists that is not ready yet, and then it sets \<open>ready\<close> and nothing else. A cancelled
  (stale) callback changes nothing, and after one ready signal every later one, and
  every sequence of later ones, leaves the state as it is: \<open>ready\<close> goes from false
  to true at most once.
\<close>

theorem ready_set_at_most_once:
  "(markReady cancelled s \<noteq> s \<longrightarrow>
       \<not> cancelled \<and> (\<exists>i. incoming s = Some i \<and> \<not> ready i
                          \<and> markReady cancelled s = s\<lparr>incoming := Some (i\<lparr>ready := True\<rparr>)\<rparr>))
   \<and> (\<forall>i. incoming s = Some i \<and> \<not> ready i \<longrightarrow>
          markReady False s = s\<lparr>incoming := Some (i\<lparr>ready := True\<rparr>)\<rparr>)
   \<and> markReady True s = s
   \<and> markReady c (markReady False s) = markReady False s
   \<and> fold markReady cs (markReady False s) = markReady False s"
proof -
  have idem: "\<And>c. markReady c (markReady False s) = markReady False s"
    by (cases "incoming s") (simp_all add: markReady_def set_ready_def)
  have "fold markReady cs (markReady False s) = markReady False s"
    by (induction cs) (simp_all add: idem)
  moreover have "markReady cancelled s \<noteq> s \<longrightarrow>
       \<not> cancelled \<and> (\<exists>i. incoming s = Some i \<and> \<not> ready i
                          \<and> markReady cancelled s = s\<lparr>incoming := Some (i\<lparr>ready := True\<rparr>)\<rparr>)"
    by (cases "incoming s") (auto simp add: markReady_def set_ready_def)
  ultimately show ?thesis using idem by (auto simp add: markReady_def set_ready_def)
qed

theorem ready_set_at_most_once_witness:
  "markReady False \<lparr>shown = 0, incoming = Some \<lparr>idx = 1, item = \<lparr>type = Image, src = ''b'', muted = None\<rparr>,
        key = ''image:b'', ready = False\<rparr>\<rparr>
     \<noteq> \<lparr>shown = 0, incoming = Some \<lparr>idx = 1, item = \<lparr>type = Image, src = ''b'', muted = None\<rparr>,
        key = ''image:b'', ready = False\<rparr>\<rparr>
   \<and> markReady False \<lparr>shown = 0, incoming = Some \<lparr>idx = 1, item = \<lparr>type = Image, src = ''b'', muted = None\<rparr>,
        key = ''image:b'', ready = False\<rparr>\<rparr>
     = \<lparr>shown = 0, incoming = Some \<lparr>idx = 1, item = \<lparr>type = Image, src = ''b'', muted = None\<rparr>,
        key = ''image:b'', ready = True\<rparr>\<rparr>"
  using ready_set_at_most_once
    [of False "\<lparr>shown = 0, incoming = Some \<lparr>idx = 1, item = \<lparr>type = Image, src = ''b'', muted = None\<rparr>,
        key = ''image:b'', ready = False\<rparr>\<rparr>" False "[]"]
  by (simp add: markReady_def set_ready_def)

section \<open>The seed of the shuffle\<close>

text \<open>
  C10. With shuffle enabled, the seed 0 is replaced by 1 before the permutation is
  generated (\<^verbatim>\<open>shuffleSeed || 1\<close>): for every media list the seeds 0 and 1 give the
  same playback order, which is the one the loop computes from 1.
\<close>

theorem seed_zero_is_seed_one:
  "order_of d items True 0 = order_of d items True 1
   \<and> order_of d items True 0
       = fst (fisher_yates d (length items - 1) 1 (map Some [0 ..< length items], \<lambda>k. None))"
  by (simp add: order_of_def)

text \<open>
  C6. The playback order is meant to be a permutation of the indices for every seed.
  With shuffle enabled, the two-item list and the seed \<open>-6\<close> the loop computes
  \<open>s = -6509\<close> (the remainder keeps the sign of the dividend) and \<open>j = -1\<close>, reads
  \<^verbatim>\<open>arr[-1]\<close>, which is undefined, into \<^verbatim>\<open>arr[1]\<close>, and stores the index 1 in a property
  that is no element: the order is \<open>[0, undefined]\<close>.
\<close>

theorem order_of_negative_seed:
  "order_of exact_draw [\<lparr>type = Image, src = ''a'', muted = None\<rparr>,
       \<lparr>type = Image, src = ''b'', muted = None\<rparr>] True (- 6) = [Some 0, None]
   \<and> Some 1 \<notin> set (order_of exact_draw [\<lparr>type = Image, src = ''a'', muted = None\<rparr>,
       \<lparr>type = Image, src = ''b'', muted = None\<rparr>] True (- 6))"
  by (simp add: order_of_def exact_draw_def js_rem_def js_swap_def js_get_def js_set_def Let_def
        numeral_2_eq_2)

text \<open>
  X1. Without shuffle the order is the identity. With a seed that is not negative, and
  a draw that stays in its range, the order has the length of the list, no index twice
  and exactly the indices below that length: it is a permutation of them.
\<close>

theorem order_is_permutation:
  "order_of d items False seed = map Some [0 ..< length items]
   \<and> (ranged_draw d \<and> 0 \<le> seed \<longrightarrow>
        length (order_of d items sh seed) = length items
      \<and> distinct (order_of d items sh seed)
      \<and> set (order_of d items sh seed) = Some ` {..< length items})"
proof -
  let ?arr = "(map Some [0 ..< length items], \<lambda>k::int. None::nat option)"
  have base: "distinct (fst ?arr) \<and> set (fst ?arr) = Some ` {..< length items}"
    by (auto simp add: distinct_map inj_on_def)
  have "length (order_of d items sh seed) = length items
      \<and> distinct (order_of d items sh seed)
      \<and> set (order_of d items sh seed) = Some ` {..< length items}"
    if r: "ranged_draw d" and s: "0 \<le> seed"
  proof (cases "items = [] \<or> \<not> sh")
    case True
    then show ?thesis using base by (cases sh) (auto simp add: order_of_def)
  next
    case False
    have s1: "0 \<le> (if seed = 0 then 1 else seed)" using s by simp
    have "length (fst ?arr) - 1 < length (fst ?arr)" using False by simp
    from fisher_yates_permutes[OF r s1 this] base False
    show ?thesis by (simp add: order_of_def Let_def)
  qed
  then show ?thesis by (simp add: order_of_def)
qed

theorem order_is_permutation_witness:
  "ranged_draw exact_draw \<and> (0::int) \<le> 7
   \<and> order_of exact_draw [\<lparr>type = Image, src = ''a'', muted = None\<rparr>,
               \<lparr>type = Video, src = ''b'', muted = Some True\<rparr>] True 7 = [Some 1, Some 0]
   \<and> distinct (order_of exact_draw [\<lparr>type = Image, src = ''a'', muted = None\<rparr>,
               \<lparr>type = Video, src = ''b'', muted = Some True\<rparr>] True 7)"
proof -
  have o: "order_of exact_draw [\<lparr>type = Image, src = ''a'', muted = None\<rparr>,
               \<lparr>type = Video, src = ''b'', muted = Some True\<rparr>] True 7 = [Some 1, Some 0]"
    by (simp add: order_of_def exact_draw_def js_rem_def js_swap_def js_get_def js_set_def Let_def
        numeral_2_eq_2)
  show ?thesis
    using order_is_permutation[of exact_draw "[\<lparr>type = Image, src = ''a'', muted = None\<rparr>,
               \<lparr>type = Video, src = ''b'', muted = Some True\<rparr>]" 7 True] ranged_exact_draw o
    by simp
qed

section \<open>The motion table\<close>

text \<open>
  C5. \<open>getMotionTriplet\<close> does not return exactly the states of the table of required
  mappings: in flip mode the table gives the perspective for the enter state only, and
  the function returns it in the settled and exit states too.
\<close>

theorem motion_table_flip_counterexample:
  "getMotionTriplet Flip True True \<noteq> required_mapping Flip True True"
  by (simp add: getMotionTriplet_def required_mapping_def target_def)

text \<open>
  C5, amended. For every mode, media kind and \<open>kenBurns\<close> flag \<open>getMotionTriplet\<close>
  returns the states of the table, with perspective 1200 in all three states of the flip
  row; and the \<open>kenBurns\<close> flag changes the result only in crossfade mode and only for
  an image.
\<close>

theorem motion_table:
  "getMotionTriplet mode isImage kenBurns =
     (if mode = Flip then with_perspective (required_mapping mode isImage kenBurns)
      else required_mapping mode isImage kenBurns)
   \<and> (mode \<noteq> Crossfade \<or> \<not> isImage \<longrightarrow>
        getMotionTriplet mode isImage kenBurns = getMotionTriplet mode isImage kb')"
  by (cases mode) (simp_all add: getMotionTriplet_def required_mapping_def with_perspective_def target_def)

theorem motion_table_witness:
  "getMotionTriplet Zoom True True = getMotionTriplet Zoom True False
   \<and> scale (initial (getMotionTriplet Crossfade True True)) = Some 1.03
   \<and> scale (initial (getMotionTriplet Crossfade False True)) = Some 1
   \<and> transformPerspective (exit (getMotionTriplet Flip False False)) = Some 1200"
  using motion_table[of Zoom True True False] motion_table[of Crossfade True True False]
     motion_table[of Flip False False False]
  by (simp add: getMotionTriplet_def required_mapping_def with_perspective_def target_def)

section \<open>Reset on a new media list\<close>

text \<open>
  C7. When \<open>App\<close> replaces the media list (the continuation of the loader, the only
  handler that sets it) it bumps the key of the slideshow in the same update, so the
  next render mounts a fresh engine: position 0 and no incoming, whatever the state of
  the previous engine was. Every event after which the list differs resets the engine.
\<close>

theorem media_list_change_resets_engine:
  "slideshow (app_step (MediaLoaded list) a) = \<lparr>shown = 0, incoming = None\<rparr>
   \<and> (\<forall>ev. app_items (app_step ev a) \<noteq> app_items a \<longrightarrow>
          shown (slideshow (app_step ev a)) = 0 \<and> incoming (slideshow (app_step ev a)) = None)"
proof -
  have "\<And>ev. app_items (app_step ev a) \<noteq> app_items a \<Longrightarrow> slideshow (app_step ev a) = init_engine"
  proof -
    fix ev assume "app_items (app_step ev a) \<noteq> app_items a"
    then show "slideshow (app_step ev a) = init_engine"
      by (cases ev) (simp_all add: app_step_def bumpEngine_def Let_def)
  qed
  then show ?thesis by (simp add: app_step_def bumpEngine_def Let_def init_engine_def)
qed

theorem media_list_change_resets_engine_witness:
  "app_items (app_step (MediaLoaded [\<lparr>type = Image, src = ''c'', muted = None\<rparr>])
      \<lparr>app_items = [], app_playing = True, app_intervalSec = 3, app_transitionMode = Crossfade,
        settingsOpen = False, engineKey = 4,
        slideshow = \<lparr>shown = 2, incoming = Some \<lparr>idx = 0, item = \<lparr>type = Image, src = ''a'', muted = None\<rparr>,
          key = ''image:a'', ready = True\<rparr>\<rparr>\<rparr>) \<noteq> []
   \<and> slideshow (app_step (MediaLoaded [\<lparr>type = Image, src = ''c'', muted = None\<rparr>])
      \<lparr>app_items = [], app_playing = True, app_intervalSec = 3, app_transitionMode = Crossfade,
        settingsOpen = False, engineKey = 4,
        slideshow = \<lparr>shown = 2, incoming = Some \<lparr>idx = 0, item = \<lparr>type = Image, src = ''a'', muted = None\<rparr>,
          key = ''image:a'', ready = True\<rparr>\<rparr>\<rparr>) = \<lparr>shown = 0, incoming = None\<rparr>"
  using media_list_change_resets_engine
    [of "[\<lparr>type = Image, src = ''c'', muted = None\<rparr>]"
        "\<lparr>app_items = [], app_playing = True, app_intervalSec = 3, app_transitionMode = Crossfade,
        settingsOpen = False, engineKey = 4,
        slideshow = \<lparr>shown = 2, incoming = Some \<lparr>idx = 0, item = \<lparr>type = Image, src = ''a'', muted = None\<rparr>,
          key = ''image:a'', ready = True\<rparr>\<rparr>\<rparr>"]
  by (simp add: app_step_def bumpEngine_def Let_def)

section \<open>The effects, field by field\<close>

lemma probe_cleanup_fields [simp]:
  "eng (probe_cleanup s) = eng s" "now_playing (probe_cleanup s) = now_playing s"
  "clock (probe_cleanup s) = clock s" "probe_live (probe_cleanup s) = False"
  "probe_gen (probe_cleanup s) = probe_gen s" "fallback (probe_cleanup s) = None"
  "commit_timer (probe_cleanup s) = commit_timer s" "play_timer (probe_cleanup s) = play_timer s"
  "video_calls (probe_cleanup s) = video_calls s"
  by (simp_all add: probe_cleanup_def)

lemma probe_body_fields [simp]:
  "eng (probe_body cfg s) = eng s" "now_playing (probe_body cfg s) = now_playing s"
  "clock (probe_body cfg s) = clock s"
  "commit_timer (probe_body cfg s) = commit_timer s" "play_timer (probe_body cfg s) = play_timer s"
  "video_calls (probe_body cfg s) = video_calls s"
  "probe_live (probe_body cfg s) = (incoming (eng s) \<noteq> None \<or> probe_live s)"
  "probe_gen (probe_body cfg s) = (if incoming (eng s) = None then probe_gen s else probe_gen s + 1)"
  "fallback (probe_body cfg s) = (case incoming (eng s) of None \<Rightarrow> fallback s
      | Some i \<Rightarrow> Some (clock s + timeoutMs (cfg_variant cfg) (type (item i))))"
  by (simp_all add: probe_body_def split: option.split)

lemma commit_cleanup_fields [simp]:
  "eng (commit_cleanup s) = eng s" "now_playing (commit_cleanup s) = now_playing s"
  "clock (commit_cleanup s) = clock s" "probe_live (commit_cleanup s) = probe_live s"
  "probe_gen (commit_cleanup s) = probe_gen s" "fallback (commit_cleanup s) = fallback s"
  "commit_timer (commit_cleanup s) = None" "play_timer (commit_cleanup s) = play_timer s"
  "video_calls (commit_cleanup s) = video_calls s"
  by (simp_all add: commit_cleanup_def)

lemma commit_body_fields [simp]:
  "eng (commit_body cfg s) = eng s" "now_playing (commit_body cfg s) = now_playing s"
  "clock (commit_body cfg s) = clock s" "probe_live (commit_body cfg s) = probe_live s"
  "probe_gen (commit_body cfg s) = probe_gen s" "fallback (commit_body cfg s) = fallback s"
  "play_timer (commit_body cfg s) = play_timer s"
  "commit_timer (commit_body cfg s) = (case incoming (eng s) of None \<Rightarrow> commit_timer s
      | Some i \<Rightarrow> if ready i then Some (clock s + 560, i) else commit_timer s)"
  "video_calls (commit_body cfg s) =
      (if ready_now s \<and> cfg_variant cfg = Defensive \<and> is_video_shown cfg s
       then video_calls s @ [Pause] else video_calls s)"
  by (simp_all add: commit_body_def ready_now_def is_video_shown_def split: option.split)

lemma play_cleanup_fields [simp]:
  "eng (play_cleanup cfg s) = eng s" "now_playing (play_cleanup cfg s) = now_playing s"
  "clock (play_cleanup cfg s) = clock s" "probe_live (play_cleanup cfg s) = probe_live s"
  "probe_gen (play_cleanup cfg s) = probe_gen s" "fallback (play_cleanup cfg s) = fallback s"
  "commit_timer (play_cleanup cfg s) = commit_timer s"
  "play_timer (play_cleanup cfg s) = (cfg_variant cfg \<noteq> Defensive \<and> play_timer s)"
  "video_calls (play_cleanup cfg s) = video_calls s"
  by (simp_all add: play_cleanup_def)

lemma play_body_fields [simp]:
  "eng (play_body cfg s) = eng s" "now_playing (play_body cfg s) = now_playing s"
  "clock (play_body cfg s) = clock s" "probe_live (play_body cfg s) = probe_live s"
  "probe_gen (play_body cfg s) = probe_gen s" "fallback (play_body cfg s) = fallback s"
  "commit_timer (play_body cfg s) = commit_timer s"
  by (simp_all add: play_body_def)

lemma sel_run_if: "f (run_if b g s) = (if b then f (g s) else f s)"
  by (simp add: run_if_def)

lemmas run_if_fields = sel_run_if[of eng] sel_run_if[of now_playing] sel_run_if[of clock]
  sel_run_if[of probe_live] sel_run_if[of probe_gen] sel_run_if[of fallback]
  sel_run_if[of commit_timer] sel_run_if[of play_timer] sel_run_if[of video_calls]

lemma flush_frame [simp]:
  "eng (flush cfg old new) = eng new" "clock (flush cfg old new) = clock new"
  "now_playing (flush cfg old new) = now_playing new"
  by (simp_all add: flush_def Let_def run_if_fields)

lemma flush_commit_timer:
  "commit_timer (flush cfg old new) =
     (if commit_deps cfg new \<noteq> commit_deps cfg old
      then (case incoming (eng new) of None \<Rightarrow> None
            | Some i \<Rightarrow> if ready i then Some (clock new + 560, i) else None)
      else commit_timer new)"
  by (simp add: flush_def Let_def run_if_fields split: option.split)

lemma flush_fallback:
  "fallback (flush cfg old new) =
     (if probe_deps new \<noteq> probe_deps old
      then (case incoming (eng new) of None \<Rightarrow> None
            | Some i \<Rightarrow> Some (clock new + timeoutMs (cfg_variant cfg) (type (item i))))
      else fallback new)"
  by (simp add: flush_def Let_def run_if_fields split: option.split)

lemma flush_probe_live:
  "probe_live (flush cfg old new) =
     (if probe_deps new \<noteq> probe_deps old then incoming (eng new) \<noteq> None else probe_live new)"
  by (simp add: flush_def Let_def run_if_fields split: option.split)

lemma flush_probe_gen:
  "probe_gen (flush cfg old new) =
     (if probe_deps new \<noteq> probe_deps old \<and> incoming (eng new) \<noteq> None
      then probe_gen new + 1 else probe_gen new)"
  by (simp add: flush_def Let_def run_if_fields split: option.split)

lemma flush_same:
  "probe_deps new = probe_deps old \<Longrightarrow> commit_deps cfg new = commit_deps cfg old \<Longrightarrow>
   play_deps cfg new = play_deps cfg old \<Longrightarrow> flush cfg old new = new"
  by (simp add: flush_def run_if_def)

lemma play_body_more [simp]:
  "play_timer (play_body cfg s) =
     (if is_video_shown cfg s \<and> cfg_variant cfg = Defensive \<and> now_playing s \<and> \<not> ready_now s
      then True else play_timer s)"
  "video_calls (play_body cfg s) = video_calls s @
     (if \<not> is_video_shown cfg s then []
      else if cfg_variant cfg = Defensive then (if \<not> now_playing s \<or> ready_now s then [Pause] else [])
      else (if \<not> now_playing s then [Pause] else [Play]))"
  by (simp_all add: play_body_def)

lemma flush_play_timer:
  "play_timer (flush cfg old new) =
     (if play_deps cfg new \<noteq> play_deps cfg old \<and> cfg_variant cfg = Defensive
      then is_video_shown cfg new \<and> now_playing new \<and> \<not> ready_now new
      else play_timer new)"
  by (simp add: flush_def Let_def run_if_fields is_video_shown_def ready_now_def)

lemma flush_video_calls:
  "video_calls (flush cfg old new) = video_calls new
     @ (if commit_deps cfg new \<noteq> commit_deps cfg old \<and> ready_now new
           \<and> cfg_variant cfg = Defensive \<and> is_video_shown cfg new then [Pause] else [])
     @ (if play_deps cfg new \<noteq> play_deps cfg old \<and> is_video_shown cfg new
        then (if cfg_variant cfg = Defensive
              then (if \<not> now_playing new \<or> ready_now new then [Pause] else [])
              else (if \<not> now_playing new then [Pause] else [Play]))
        else [])"
  by (simp add: flush_def Let_def run_if_fields is_video_shown_def ready_now_def)

lemma shown_video_incoming [simp]:
  "shownIsVideo items ord (E\<lparr>incoming := v\<rparr>) = shownIsVideo items ord E"
  "shownKey items ord (E\<lparr>incoming := v\<rparr>) = shownKey items ord E"
  by (simp_all add: shownIsVideo_def shownKey_def shownItem_def shownIdx_def)

lemma flush_id:
  assumes "eng new = eng old" "now_playing new = now_playing old"
  shows "flush cfg old new = new"
  using assms by (simp add: flush_same probe_deps_def commit_deps_def play_deps_def is_video_shown_def)

section \<open>While the probe runs\<close>

lemma busy_noop:
  assumes "incoming s = Some i"
  shows "scheduleNext items ord n s = s" "goNext items ord s = s"
    "handleVideoEnded items ord pl s = s" "tick items ord due s = s"
  using assms by (auto simp add: scheduleNext_def goNext_def handleVideoEnded_def tick_def)

lemma handler_busy:
  assumes "incoming (eng s) = Some i" "e \<noteq> Ms" "\<forall>g out. e \<noteq> ProbeDone g out"
  shows "eng (handler cfg e s) = eng s \<and> clock (handler cfg e s) = clock s
    \<and> probe_live (handler cfg e s) = probe_live s \<and> fallback (handler cfg e s) = fallback s
    \<and> commit_timer (handler cfg e s) = commit_timer s \<and> probe_gen (handler cfg e s) = probe_gen s"
proof (cases e)
  case Ms
  then show ?thesis using assms(2) by simp
next
  case (AdvanceTick due)
  then show ?thesis using assms(1) by (simp add: timer_armed_def)
next
  case VideoEnded
  then show ?thesis using assms(1) by (simp add: busy_noop[of _ i])
next
  case Advance
  then show ?thesis using assms(1) by (simp add: busy_noop[of _ i])
next
  case (ProbeDone g out)
  then show ?thesis using assms(3) by simp
next
  case (PlayingProp v)
  then show ?thesis by simp
next
  case PlayTimer
  then show ?thesis by simp
qed

lemma deps_eng:
  assumes "eng s' = eng s"
  shows "probe_deps s' = probe_deps s \<and> commit_deps cfg s' = commit_deps cfg s"
  using assms by (simp add: probe_deps_def commit_deps_def is_video_shown_def)

lemma flush_keeps:
  assumes "eng new = eng old"
  shows "probe_live (flush cfg old new) = probe_live new \<and> fallback (flush cfg old new) = fallback new
       \<and> commit_timer (flush cfg old new) = commit_timer new"
  using deps_eng[OF assms, of cfg] by (simp add: flush_commit_timer flush_fallback flush_probe_live)

lemma probing_event:
  assumes p: "probing s inc d" and e: "e \<noteq> Ms"
  shows "clock (step cfg e s) = clock s
       \<and> (probing (step cfg e s) inc d \<or> incoming (eng (step cfg e s)) = Some (inc\<lparr>ready := True\<rparr>))"
proof (cases "\<exists>g out. e = ProbeDone g out")
  case False
  then have n: "\<forall>g out. e \<noteq> ProbeDone g out" by simp
  have b: "incoming (eng s) = Some inc" using p by (simp add: probing_def)
  note h = handler_busy[OF b e n, of cfg]
  have st: "step cfg e s = flush cfg s (handler cfg e s)" using e by (simp add: step_def)
  from h have k: "eng (handler cfg e s) = eng s" by simp
  note f = flush_keeps[OF k, of cfg]
  have "probing (flush cfg s (handler cfg e s)) inc d"
    unfolding probing_def using p h f by (simp add: probing_def)
  then show ?thesis using h by (simp add: st)
next
  case True
  then obtain g out where ev: "e = ProbeDone g out" by blast
  have st: "step cfg e s = flush cfg s (probe_done cfg g out s)" using ev by (simp add: step_def)
  show ?thesis
  proof (cases "probe_live s \<and> g = probe_gen s \<and> outcome_type out = type (item inc)")
    case False
    then have "probe_done cfg g out s = s" using p by (auto simp add: probe_done_def probing_def)
    then show ?thesis using p by (simp add: st flush_same)
  next
    case True
    then have "eng (probe_done cfg g out s) = (eng s)\<lparr>incoming := Some (inc\<lparr>ready := True\<rparr>)\<rparr>
       \<and> clock (probe_done cfg g out s) = clock s"
      using p by (simp add: probe_done_def probing_def markReady_def set_ready_def)
    then show ?thesis by (simp add: st)
  qed
qed

lemma probing_ms:
  assumes p: "probing s inc d"
  shows "clock (step cfg Ms s) = clock s + 1
       \<and> (if d = clock s + 1 then incoming (eng (step cfg Ms s)) = Some (inc\<lparr>ready := True\<rparr>)
          else probing (step cfg Ms s) inc d)"
proof (cases "d = clock s + 1")
  case True
  let ?s1 = "s\<lparr>clock := clock s + 1\<rparr>"
  let ?f = "fire_fallback cfg ?s1"
  have e: "eng ?f = (eng s)\<lparr>incoming := Some (inc\<lparr>ready := True\<rparr>)\<rparr>"
    using p True by (simp add: fire_fallback_def probing_def markReady_def set_ready_def)
  have c: "clock ?f = clock s + 1" by (simp add: fire_fallback_def)
  have t: "commit_timer ?f = Some (clock s + 1 + 560, inc\<lparr>ready := True\<rparr>)"
    using p True
    by (simp add: fire_fallback_def probing_def markReady_def set_ready_def flush_commit_timer
        commit_deps_def)
  have "fire_commit cfg ?f = ?f" using t c by (simp add: fire_commit_def)
  then show ?thesis using True e c by (simp add: step_def)
next
  case False
  let ?s1 = "s\<lparr>clock := clock s + 1\<rparr>"
  have f: "fire_fallback cfg ?s1 = ?s1" using p False by (auto simp add: fire_fallback_def probing_def)
  have "fire_commit cfg ?s1 = ?s1" using p by (simp add: fire_commit_def probing_def)
  then show ?thesis using p f False by (simp add: step_def probing_def)
qed

lemma timeoutMs_bounds:
  "0 < timeoutMs v k" "timeoutMs v Image = 2000" "timeoutMs v Video \<le> 4500"
  by (cases v; cases k; simp)+

lemma staged_unready:
  assumes "incoming E = None" "incoming (goNext items ord E) = Some inc"
  shows "\<not> ready inc"
  using assms by (auto simp add: goNext_def scheduleNext_def Let_def split: if_splits option.splits)

lemma handler_stages:
  assumes n: "incoming (eng s) = None" and e: "e \<noteq> Ms"
      and i: "incoming (eng (handler cfg e s)) = Some inc"
  shows "\<not> ready inc \<and> clock (handler cfg e s) = clock s"
proof (cases e)
  case Ms
  then show ?thesis using e by simp
next
  case (AdvanceTick due)
  then show ?thesis using n i staged_unready[OF n, of "cfg_items cfg" "cfg_order cfg" inc]
    by (auto simp add: tick_def split: if_splits)
next
  case VideoEnded
  then show ?thesis using n i staged_unready[OF n, of "cfg_items cfg" "cfg_order cfg" inc]
    by (auto simp add: handleVideoEnded_def split: if_splits)
next
  case Advance
  then show ?thesis using n i staged_unready[OF n, of "cfg_items cfg" "cfg_order cfg" inc] by simp
next
  case (ProbeDone g out)
  then show ?thesis using n i by (simp add: probe_done_def)
next
  case (PlayingProp v)
  then show ?thesis using n i by simp
next
  case PlayTimer
  then show ?thesis using n i by (simp split: if_splits)
qed

lemma ms_keeps_idle:
  assumes n: "incoming (eng s) = None"
  shows "incoming (eng (step cfg Ms s)) = None"
proof -
  let ?s1 = "s\<lparr>clock := clock s + 1\<rparr>"
  have f: "incoming (eng (fire_fallback cfg ?s1)) = None"
    using n by (simp add: fire_fallback_def markReady_def set_ready_def)
  have "incoming (eng (fire_commit cfg (fire_fallback cfg ?s1))) = None"
    using f by (simp add: fire_commit_def commit_def split: option.split)
  then show ?thesis by (simp add: step_def)
qed

lemma staging_step:
  assumes n: "incoming (eng s) = None" and i: "incoming (eng (step cfg e s)) = Some inc"
  shows "probing (step cfg e s) inc (clock (step cfg e s) + timeoutMs (cfg_variant cfg) (type (item inc)))"
proof (cases "e = Ms")
  case True
  then show ?thesis using ms_keeps_idle[OF n, of cfg] i by simp
next
  case False
  have st: "step cfg e s = flush cfg s (handler cfg e s)" using False by (simp add: step_def)
  have i': "incoming (eng (handler cfg e s)) = Some inc" using i by (simp add: st)
  note h = handler_stages[OF n False i']
  have pd: "probe_deps (handler cfg e s) \<noteq> probe_deps s" using n i' by (simp add: probe_deps_def)
  have cd: "commit_deps cfg (handler cfg e s) \<noteq> commit_deps cfg s"
    using n i' by (simp add: commit_deps_def)
  show ?thesis
    using h i' pd cd timeoutMs_bounds(1)[of "cfg_variant cfg" "type (item inc)"]
    by (simp add: probing_def st flush_commit_timer flush_fallback flush_probe_live)
qed

lemma until_ready_now: "ready_now s \<Longrightarrow> until_ready cfg tr s = Some s"
  by (cases tr) simp_all

lemma probing_until_ready:
  "probing s inc d \<Longrightarrow> d \<le> clock s + count_list tr Ms \<Longrightarrow>
   \<exists>s'. until_ready cfg tr s = Some s' \<and> incoming (eng s') = Some (inc\<lparr>ready := True\<rparr>) \<and> clock s' \<le> d"
proof (induction tr arbitrary: s)
  case Nil
  then show ?case by (simp add: probing_def)
next
  case (Cons e es)
  have nr: "\<not> ready_now s" using Cons.prems(1) by (simp add: probing_def ready_now_def)
  have u: "until_ready cfg (e # es) s = until_ready cfg es (step cfg e s)" using nr by simp
  have lt: "clock s < d" using Cons.prems(1) by (simp add: probing_def)
  show ?case
  proof (cases "e = Ms")
    case True
    note m = probing_ms[OF Cons.prems(1), of cfg]
    show ?thesis
    proof (cases "d = clock s + 1")
      case True
      then have r: "ready_now (step cfg Ms s)" using m by (simp add: ready_now_def)
      show ?thesis using True m until_ready_now[OF r, of cfg es] \<open>e = Ms\<close> nr by simp
    next
      case False
      then have p: "probing (step cfg Ms s) inc d" using m by simp
      have "d \<le> clock (step cfg Ms s) + count_list es Ms" using Cons.prems(2) True m by simp
      from Cons.IH[OF p this] show ?thesis using True nr by simp
    qed
  next
    case False
    note m = probing_event[OF Cons.prems(1) False, of cfg]
    show ?thesis
    proof (cases "probing (step cfg e s) inc d")
      case True
      have "d \<le> clock (step cfg e s) + count_list es Ms" using Cons.prems(2) False m by simp
      from Cons.IH[OF True this] show ?thesis using nr by simp
    next
      case f: False
      then have i: "incoming (eng (step cfg e s)) = Some (inc\<lparr>ready := True\<rparr>)" using m by simp
      then have r: "ready_now (step cfg e s)" by (simp add: ready_now_def)
      show ?thesis using i m lt until_ready_now[OF r, of cfg es] nr by simp
    qed
  qed
qed

lemma count_list_replicate_same: "count_list (replicate n a) a = n"
  by (induction n) simp_all

lemma demo_shown_video: "is_video_shown demo_cfg demo_idle \<and> is_video_shown demo_cfg demo_probing"
  by (simp add: is_video_shown_def demo_cfg_def demo_idle_def demo_probing_def shownIsVideo_def
      shownItem_def shownIdx_def safeLen_def wrap_index_def js_rem_def item_at_def order_at_def js_at_def)

lemma demo_stage: "eng (step demo_cfg VideoEnded demo_idle) = \<lparr>shown = 0, incoming = Some demo_staged\<rparr>
    \<and> clock (step demo_cfg VideoEnded demo_idle) = 0"
proof -
  have "goNext (cfg_items demo_cfg) (cfg_order demo_cfg) \<lparr>shown = 0, incoming = None\<rparr>
        = \<lparr>shown = 0, incoming = Some demo_staged\<rparr>"
    by (simp add: demo_cfg_def demo_staged_def goNext_def scheduleNext_def safeLen_def shownIdx_def
        wrap_index_def js_rem_def nextIndex_def item_at_def order_at_def js_at_def keyOf_def Let_def)
  then show ?thesis using demo_shown_video
    by (simp add: step_def handleVideoEnded_def demo_idle_def)
qed

lemma demo_ready: "ready_now (step demo_cfg (ProbeDone 1 DecodeError) demo_probing)"
  by (simp add: step_def ready_now_def probe_done_def demo_probing_def demo_staged_def demo_cfg_def
      markReady_def set_ready_def)

lemma probing_callback_ready:
  assumes p: "probing s inc d" and o: "outcome_type out = type (item inc)"
  shows "incoming (eng (step cfg (ProbeDone (probe_gen s) out) s)) = Some (inc\<lparr>ready := True\<rparr>)
       \<and> clock (step cfg (ProbeDone (probe_gen s) out) s) = clock s"
proof -
  have "eng (probe_done cfg (probe_gen s) out s) = (eng s)\<lparr>incoming := Some (inc\<lparr>ready := True\<rparr>)\<rparr>
       \<and> clock (probe_done cfg (probe_gen s) out s) = clock s"
    using p o by (simp add: probe_done_def probing_def markReady_def set_ready_def)
  then show ?thesis by (simp add: step_def)
qed

lemma probing_run_unready:
  "probing s inc d \<Longrightarrow> until_ready cfg tr s = None \<Longrightarrow> probing (run cfg tr s) inc d"
proof (induction tr arbitrary: s)
  case Nil
  then show ?case by simp
next
  case (Cons e es)
  have nr: "\<not> ready_now s" using Cons.prems(1) by (simp add: probing_def ready_now_def)
  then have u: "until_ready cfg es (step cfg e s) = None" using Cons.prems(2) by simp
  have nr': "\<not> ready_now (step cfg e s)"
    using u until_ready_now[of "step cfg e s" cfg es] by auto
  have "probing (step cfg e s) inc d"
  proof (cases "e = Ms")
    case True
    show ?thesis using probing_ms[OF Cons.prems(1), of cfg] nr' True
      by (auto simp add: ready_now_def split: if_splits)
  next
    case False
    show ?thesis using probing_event[OF Cons.prems(1) False, of cfg] nr'
      by (auto simp add: ready_now_def)
  qed
  from Cons.IH[OF this u] show ?case by simp
qed

lemma demo_stage_gen: "probe_gen (step demo_cfg VideoEnded demo_idle) = 1
    \<and> \<not> ready_now (step demo_cfg VideoEnded demo_idle)"
proof -
  have e: "eng (handler demo_cfg VideoEnded demo_idle) = \<lparr>shown = 0, incoming = Some demo_staged\<rparr>"
    using demo_stage by (simp add: step_def)
  have g: "probe_gen (handler demo_cfg VideoEnded demo_idle) = 0"
    by (simp add: demo_idle_def)
  have d: "probe_deps (handler demo_cfg VideoEnded demo_idle) \<noteq> probe_deps demo_idle"
    using e by (simp add: probe_deps_def demo_idle_def)
  show ?thesis using e g d
    by (simp add: step_def flush_probe_gen ready_now_def demo_staged_def)
qed

text \<open>
  C2. Whatever event stages an incoming, and whatever happens afterwards (callbacks of
  the probe that report success or failure, stale callbacks of earlier probes, further
  advance requests, changes of \<^verbatim>\<open>playing\<close>, or nothing at all), the readiness flag of
  that incoming is true no later than the timeout of its kind after the staging: 2000 ms
  for an image, 4500 ms for a video (4000 ms in the second implementation), which is
  within 4500 ms plus the 350 ms of the first-frame wait. And the probe fails open: after
  every sequence of events \<open>pre\<close> that has not made the incoming ready yet, the probe is
  still live, and its callback for a failure (the decode error of an image, the throwing
  priming step of a video) sets the flag at that very instant, as does every callback
  of the kind of the incoming item. This is for the component while it stays mounted,
  with timers that fire at their due time.
\<close>

theorem readiness_within_timeout:
  assumes "incoming (eng s) = None"
      and "incoming (eng (step cfg e s)) = Some inc"
      and "timeoutMs (cfg_variant cfg) (type (item inc)) \<le> count_list tr Ms"
  shows "(\<exists>s'. until_ready cfg tr (step cfg e s) = Some s'
              \<and> incoming (eng s') = Some (inc\<lparr>ready := True\<rparr>)
              \<and> clock s' \<le> clock (step cfg e s) + timeoutMs (cfg_variant cfg) (type (item inc))
              \<and> timeoutMs (cfg_variant cfg) (type (item inc))
                   \<le> (if type (item inc) = Image then 2000 else 4500 + 350))
       \<and> (until_ready cfg pre (step cfg e s) = None \<longrightarrow>
            probe_live (run cfg pre (step cfg e s))
          \<and> incoming (eng (step cfg
               (ProbeDone (probe_gen (run cfg pre (step cfg e s)))
                  (if type (item inc) = Image then DecodeError else Threw))
               (run cfg pre (step cfg e s)))) = Some (inc\<lparr>ready := True\<rparr>)
          \<and> clock (step cfg
               (ProbeDone (probe_gen (run cfg pre (step cfg e s)))
                  (if type (item inc) = Image then DecodeError else Threw))
               (run cfg pre (step cfg e s))) = clock (run cfg pre (step cfg e s)))
       \<and> (until_ready cfg pre (step cfg e s) = None \<and> outcome_type out = type (item inc) \<longrightarrow>
            incoming (eng (step cfg (ProbeDone (probe_gen (run cfg pre (step cfg e s))) out)
               (run cfg pre (step cfg e s)))) = Some (inc\<lparr>ready := True\<rparr>))"
proof -
  let ?d = "clock (step cfg e s) + timeoutMs (cfg_variant cfg) (type (item inc))"
  have p: "probing (step cfg e s) inc ?d" by (rule staging_step[OF assms(1,2)])
  have "?d \<le> clock (step cfg e s) + count_list tr Ms" using assms(3) by simp
  from probing_until_ready[OF p this, of cfg]
  obtain s' where "until_ready cfg tr (step cfg e s) = Some s'"
    "incoming (eng s') = Some (inc\<lparr>ready := True\<rparr>)" "clock s' \<le> ?d" by blast
  moreover have "timeoutMs (cfg_variant cfg) (type (item inc))
                   \<le> (if type (item inc) = Image then 2000 else 4500 + 350)"
    using timeoutMs_bounds(2,3)[of "cfg_variant cfg"] by (cases "type (item inc)") simp_all
  ultimately have first: "\<exists>s'. until_ready cfg tr (step cfg e s) = Some s'
              \<and> incoming (eng s') = Some (inc\<lparr>ready := True\<rparr>)
              \<and> clock s' \<le> ?d
              \<and> timeoutMs (cfg_variant cfg) (type (item inc))
                   \<le> (if type (item inc) = Image then 2000 else 4500 + 350)" by blast
  have fo: "outcome_type (if type (item inc) = Image then DecodeError else Threw) = type (item inc)"
    by (cases "type (item inc)") simp_all
  have second: "probe_live (run cfg pre (step cfg e s))
          \<and> incoming (eng (step cfg
               (ProbeDone (probe_gen (run cfg pre (step cfg e s)))
                  (if type (item inc) = Image then DecodeError else Threw))
               (run cfg pre (step cfg e s)))) = Some (inc\<lparr>ready := True\<rparr>)
          \<and> clock (step cfg
               (ProbeDone (probe_gen (run cfg pre (step cfg e s)))
                  (if type (item inc) = Image then DecodeError else Threw))
               (run cfg pre (step cfg e s))) = clock (run cfg pre (step cfg e s))"
    if u: "until_ready cfg pre (step cfg e s) = None"
  proof -
    note q = probing_run_unready[OF p u]
    from probing_callback_ready[OF q fo, of cfg] q show ?thesis by (simp add: probing_def)
  qed
  have third: "incoming (eng (step cfg (ProbeDone (probe_gen (run cfg pre (step cfg e s))) out)
               (run cfg pre (step cfg e s)))) = Some (inc\<lparr>ready := True\<rparr>)"
    if u: "until_ready cfg pre (step cfg e s) = None" and o: "outcome_type out = type (item inc)"
    using probing_callback_ready[OF probing_run_unready[OF p u] o, of cfg] by simp
  show ?thesis using first second third by blast
qed

theorem readiness_within_timeout_witness:
  "incoming (eng demo_idle) = None
   \<and> incoming (eng (step demo_cfg VideoEnded demo_idle)) = Some demo_staged
   \<and> (\<exists>s'. until_ready demo_cfg (replicate 2000 Ms) (step demo_cfg VideoEnded demo_idle) = Some s'
          \<and> incoming (eng s') = Some (demo_staged\<lparr>ready := True\<rparr>)
          \<and> clock s' \<le> 2000)
   \<and> until_ready demo_cfg [] (step demo_cfg VideoEnded demo_idle) = None
   \<and> incoming (eng (step demo_cfg (ProbeDone 1 DecodeError) (step demo_cfg VideoEnded demo_idle)))
        = Some (demo_staged\<lparr>ready := True\<rparr>)"
proof -
  have a: "incoming (eng demo_idle) = None" by (simp add: demo_idle_def)
  have b: "incoming (eng (step demo_cfg VideoEnded demo_idle)) = Some demo_staged"
    using demo_stage by simp
  have c: "timeoutMs (cfg_variant demo_cfg) (type (item demo_staged)) \<le> count_list (replicate 2000 Ms) Ms"
    by (simp add: count_list_replicate_same demo_cfg_def demo_staged_def)
  have u: "until_ready demo_cfg [] (step demo_cfg VideoEnded demo_idle) = None"
    using demo_stage_gen by simp
  have t: "type (item demo_staged) = Image" by (simp add: demo_staged_def)
  show ?thesis
    using readiness_within_timeout[OF a b c, of "[]" DecodeError] a b u t demo_stage demo_stage_gen
    by (simp add: demo_cfg_def)
qed

section \<open>The hold and the commit\<close>

lemma probe_done_ready:
  assumes "incoming (eng s) = Some inc" "ready inc"
  shows "eng (probe_done cfg g out s) = eng s \<and> clock (probe_done cfg g out s) = clock s
       \<and> commit_timer (probe_done cfg g out s) = commit_timer s
       \<and> play_timer (probe_done cfg g out s) = play_timer s
       \<and> video_calls (probe_done cfg g out s) = video_calls s
       \<and> now_playing (probe_done cfg g out s) = now_playing s"
  using assms by (simp add: probe_done_def markReady_def set_ready_def)

lemma handler_holding:
  assumes "incoming (eng s) = Some inc" "ready inc" "e \<noteq> Ms"
  shows "eng (handler cfg e s) = eng s \<and> clock (handler cfg e s) = clock s
       \<and> commit_timer (handler cfg e s) = commit_timer s"
proof (cases "\<exists>g out. e = ProbeDone g out")
  case True
  then show ?thesis using probe_done_ready[OF assms(1,2)] by auto
next
  case False
  then have "\<forall>g out. e \<noteq> ProbeDone g out" by simp
  from handler_busy[OF assms(1,3) this] show ?thesis by simp
qed

lemma holding_event:
  assumes h: "holding s E inc due" and e: "e \<noteq> Ms"
  shows "holding (step cfg e s) E inc due \<and> clock (step cfg e s) = clock s"
proof -
  have i: "incoming (eng s) = Some inc" "ready inc" using h by (simp_all add: holding_def)
  note k = handler_holding[OF i e, of cfg]
  from k have "eng (handler cfg e s) = eng s" by simp
  note f = flush_keeps[OF this, of cfg]
  show ?thesis using h k f e by (simp add: holding_def step_def)
qed

lemma fallback_fire_ready:
  assumes "incoming (eng s) = Some inc" "ready inc"
  shows "eng (fire_fallback cfg s) = eng s \<and> clock (fire_fallback cfg s) = clock s
       \<and> commit_timer (fire_fallback cfg s) = commit_timer s"
proof (cases "fallback s = Some (clock s)")
  case False
  then show ?thesis by (simp add: fire_fallback_def)
next
  case True
  have m: "markReady (\<not> probe_live s) (eng s) = eng s"
    using assms by (simp add: markReady_def set_ready_def)
  let ?o = "s\<lparr>fallback := None\<rparr>"
  have "eng (?o\<lparr>eng := eng s\<rparr>) = eng ?o" by simp
  note f = flush_keeps[OF this, of cfg]
  show ?thesis using True m f by (simp add: fire_fallback_def)
qed

lemma holding_ms:
  assumes h: "holding s E inc due"
  shows "clock (step cfg Ms s) = clock s + 1
       \<and> (if due = clock s + 1
          then eng (step cfg Ms s) = commit inc E \<and> commit_timer (step cfg Ms s) = None
          else holding (step cfg Ms s) E inc due)"
proof -
  let ?s1 = "s\<lparr>clock := clock s + 1\<rparr>"
  let ?f = "fire_fallback cfg ?s1"
  have i: "incoming (eng ?s1) = Some inc" "ready inc" using h by (simp_all add: holding_def)
  note k = fallback_fire_ready[OF i, of cfg]
  have ct: "commit_timer ?f = Some (due, inc)" using k h by (simp add: holding_def)
  have ck: "clock ?f = clock s + 1" using k by simp
  have en: "eng ?f = E" using k h by (simp add: holding_def)
  have st: "step cfg Ms s = fire_commit cfg ?f" by (simp add: step_def)
  show ?thesis
  proof (cases "due = clock s + 1")
    case True
    have cd: "commit_deps cfg (?f\<lparr>commit_timer := None, eng := commit inc (eng ?f)\<rparr>)
              \<noteq> commit_deps cfg (?f\<lparr>commit_timer := None\<rparr>)"
      using en h by (simp add: commit_deps_def commit_def holding_def)
    have "fire_commit cfg ?f = flush cfg (?f\<lparr>commit_timer := None\<rparr>)
             (?f\<lparr>commit_timer := None, eng := commit inc (eng ?f)\<rparr>)"
      using ct ck True by (simp add: fire_commit_def)
    then show ?thesis using True cd en ck
      by (simp add: st flush_commit_timer commit_def)
  next
    case False
    have "fire_commit cfg ?f = ?f" using ct ck False by (simp add: fire_commit_def)
    then show ?thesis using False h ct ck en by (simp add: st holding_def)
  qed
qed

lemma holding_run:
  "holding s E inc due \<Longrightarrow> clock s + count_list tr Ms < due \<Longrightarrow>
   holding (run cfg tr s) E inc due \<and> clock (run cfg tr s) = clock s + count_list tr Ms"
proof (induction tr arbitrary: s)
  case Nil
  then show ?case by simp
next
  case (Cons e es)
  show ?case
  proof (cases "e = Ms")
    case True
    note m = holding_ms[OF Cons.prems(1), of cfg]
    have ne: "due \<noteq> clock s + 1" using Cons.prems(2) True by simp
    then have h: "holding (step cfg Ms s) E inc due" using m by simp
    have "clock (step cfg Ms s) + count_list es Ms < due" using Cons.prems(2) True m by simp
    from Cons.IH[OF h this] show ?thesis using True m by simp
  next
    case False
    note m = holding_event[OF Cons.prems(1) False, of cfg]
    then have h: "holding (step cfg e s) E inc due" by simp
    have "clock (step cfg e s) + count_list es Ms < due" using Cons.prems(2) False m by simp
    from Cons.IH[OF h this] show ?thesis using False m by simp
  qed
qed

lemma becomes_ready_event:
  assumes i: "incoming (eng s) = Some inc" and u: "\<not> ready inc" and r: "ready_now (step cfg e s)"
      and e: "e \<noteq> Ms"
  shows "ready_render cfg s inc (step cfg e s)"
proof -
  have st: "step cfg e s = flush cfg s (handler cfg e s)" using e by (simp add: step_def)
  show ?thesis
  proof (cases "\<exists>g out. e = ProbeDone g out")
    case True
    then obtain g out where ev: "e = ProbeDone g out" by blast
    show ?thesis
    proof (cases "probe_live s \<and> g = probe_gen s \<and> outcome_type out = type (item inc)")
      case True
      then have "eng (handler cfg e s) = (eng s)\<lparr>incoming := Some (inc\<lparr>ready := True\<rparr>)\<rparr>
        \<and> now_playing (handler cfg e s) = now_playing s \<and> video_calls (handler cfg e s) = video_calls s"
        using i u ev by (simp add: probe_done_def markReady_def set_ready_def)
      then show ?thesis unfolding ready_render_def st by blast
    next
      case False
      then have "handler cfg e s = s" using i ev by (auto simp add: probe_done_def)
      then have "step cfg e s = s" by (simp add: st flush_same)
      then show ?thesis using r i u by (simp add: ready_now_def)
    qed
  next
    case n: False
    then have "\<forall>g out. e \<noteq> ProbeDone g out" by simp
    from handler_busy[OF i e this, of cfg] have "eng (step cfg e s) = eng s" by (simp add: st)
    then show ?thesis using r i u by (simp add: ready_now_def)
  qed
qed

lemma fire_commit_cases:
  "fire_commit cfg f = f \<or> incoming (eng (fire_commit cfg f)) = None"
  by (cases "commit_timer f") (auto simp add: fire_commit_def commit_def)

lemma fire_fallback_cases:
  "(fallback w = Some (clock w) \<and> probe_live w
      \<and> fire_fallback cfg w = flush cfg (w\<lparr>fallback := None\<rparr>)
                                 (w\<lparr>fallback := None, eng := markReady False (eng w)\<rparr>))
   \<or> eng (fire_fallback cfg w) = eng w"
  by (cases "probe_live w") (simp_all add: fire_fallback_def markReady_def)

lemma becomes_ready_ms:
  assumes i: "incoming (eng s) = Some inc" and u: "\<not> ready inc" and r: "ready_now (step cfg Ms s)"
  shows "ready_render cfg s inc (step cfg Ms s)"
proof -
  define w where "w = s\<lparr>clock := clock s + 1\<rparr>"
  define f where "f = fire_fallback cfg w"
  have st: "step cfg Ms s = fire_commit cfg f" by (simp add: step_def f_def w_def)
  have same: "fire_commit cfg f = f"
    using fire_commit_cases[of cfg f] r st by (auto simp add: ready_now_def)
  have xe: "eng w = eng s" "now_playing w = now_playing s" "video_calls w = video_calls s"
    by (simp_all add: w_def)
  have rf: "ready_now f" using r st same by simp
  have ne: "eng f \<noteq> eng w" using rf i u xe by (auto simp add: ready_now_def)
  from fire_fallback_cases[of w cfg] ne
  have ff: "f = flush cfg (w\<lparr>fallback := None\<rparr>) (w\<lparr>fallback := None, eng := markReady False (eng w)\<rparr>)"
    by (simp add: f_def)
  have m: "markReady False (eng w) = (eng s)\<lparr>incoming := Some (inc\<lparr>ready := True\<rparr>)\<rparr>"
    using i u xe by (simp add: markReady_def set_ready_def)
  show ?thesis unfolding ready_render_def st same
    apply (rule exI[of _ "w\<lparr>fallback := None\<rparr>"])
    apply (rule exI[of _ "w\<lparr>fallback := None, eng := markReady False (eng w)\<rparr>"])
    using ff m xe by simp
qed

lemma becomes_ready:
  assumes "incoming (eng s) = Some inc" "\<not> ready inc" "ready_now (step cfg e s)"
  shows "ready_render cfg s inc (step cfg e s)"
  using assms becomes_ready_ms becomes_ready_event by (cases "e = Ms") blast+

lemma ready_render_holding:
  assumes i: "incoming (eng s) = Some inc" and u: "\<not> ready inc" and r: "ready_render cfg s inc s'"
  shows "holding s' ((eng s)\<lparr>incoming := Some (inc\<lparr>ready := True\<rparr>)\<rparr>) (inc\<lparr>ready := True\<rparr>) (clock s' + 560)"
proof -
  from r obtain old new where
    f: "s' = flush cfg old new" "eng old = eng s"
       "eng new = (eng s)\<lparr>incoming := Some (inc\<lparr>ready := True\<rparr>)\<rparr>"
    unfolding ready_render_def by blast
  have cd: "commit_deps cfg new \<noteq> commit_deps cfg old" using f i u by (simp add: commit_deps_def)
  have "commit_timer (flush cfg old new) = Some (clock new + 560, inc\<lparr>ready := True\<rparr>)"
    using cd f by (simp add: flush_commit_timer)
  then show ?thesis using f by (simp add: holding_def)
qed

text \<open>
  C3. Let an event make a staged incoming ready. From that instant the commit timer is
  due 560 ms later; through every sequence of events in which fewer than 560 ms pass,
  the position and the incoming stay as they are (no commit, and the timer stays armed
  for the same instant); and the millisecond that completes the 560 commits: the
  position is the one of the incoming, the incoming is null and no commit timer is
  armed, so this incoming is committed once. This is for the component while it stays
  mounted, with timers that fire at their due time.
\<close>

theorem commit_exactly_once_after_hold:
  assumes "incoming (eng s) = Some inc" and "\<not> ready inc"
      and "ready_now (step cfg e s)"
      and "count_list tr Ms < 560"
  shows "eng (step cfg e s) = (eng s)\<lparr>incoming := Some (inc\<lparr>ready := True\<rparr>)\<rparr>
       \<and> eng (run cfg tr (step cfg e s)) = eng (step cfg e s)
       \<and> commit_timer (run cfg tr (step cfg e s)) = Some (clock (step cfg e s) + 560, inc\<lparr>ready := True\<rparr>)
       \<and> clock (run cfg tr (step cfg e s)) = clock (step cfg e s) + count_list tr Ms
       \<and> (count_list tr Ms = 559 \<longrightarrow>
            shown (eng (step cfg Ms (run cfg tr (step cfg e s)))) = idx inc
          \<and> incoming (eng (step cfg Ms (run cfg tr (step cfg e s)))) = None
          \<and> commit_timer (step cfg Ms (run cfg tr (step cfg e s))) = None
          \<and> clock (step cfg Ms (run cfg tr (step cfg e s))) = clock (step cfg e s) + 560)"
proof -
  define s1 where "s1 = step cfg e s"
  define E where "E = (eng s)\<lparr>incoming := Some (inc\<lparr>ready := True\<rparr>)\<rparr>"
  define i where "i = inc\<lparr>ready := True\<rparr>"
  have h1: "holding s1 E i (clock s1 + 560)"
    unfolding s1_def E_def i_def
    by (rule ready_render_holding[OF assms(1,2) becomes_ready[OF assms(1,2,3)]])
  have "clock s1 + count_list tr Ms < clock s1 + 560" using assms(4) by simp
  note h2 = holding_run[OF h1 this, of cfg]
  then have hr: "holding (run cfg tr s1) E i (clock s1 + 560)" by simp
  note m = holding_ms[OF hr, of cfg]
  have a: "eng s1 = E" using h1 by (simp add: holding_def)
  have b: "eng (run cfg tr s1) = E \<and> commit_timer (run cfg tr s1) = Some (clock s1 + 560, i)"
    using hr by (simp add: holding_def)
  have c: "count_list tr Ms = 559 \<longrightarrow>
            shown (eng (step cfg Ms (run cfg tr s1))) = idx inc
          \<and> incoming (eng (step cfg Ms (run cfg tr s1))) = None
          \<and> commit_timer (step cfg Ms (run cfg tr s1)) = None
          \<and> clock (step cfg Ms (run cfg tr s1)) = clock s1 + 560"
    using m h2 by (simp add: commit_def i_def)
  show ?thesis using a b c h2 unfolding s1_def E_def i_def by simp
qed

theorem commit_exactly_once_after_hold_witness:
  "incoming (eng demo_probing) = Some demo_staged \<and> \<not> ready demo_staged
   \<and> ready_now (step demo_cfg (ProbeDone 1 DecodeError) demo_probing)
   \<and> eng (run demo_cfg (Advance # replicate 559 Ms) (step demo_cfg (ProbeDone 1 DecodeError) demo_probing))
        = \<lparr>shown = 0, incoming = Some (demo_staged\<lparr>ready := True\<rparr>)\<rparr>
   \<and> eng (step demo_cfg Ms (run demo_cfg (Advance # replicate 559 Ms)
            (step demo_cfg (ProbeDone 1 DecodeError) demo_probing))) = \<lparr>shown = 1, incoming = None\<rparr>
   \<and> clock (step demo_cfg Ms (run demo_cfg (Advance # replicate 559 Ms)
            (step demo_cfg (ProbeDone 1 DecodeError) demo_probing))) = 560"
proof -
  have a: "incoming (eng demo_probing) = Some demo_staged" by (simp add: demo_probing_def)
  have b: "\<not> ready demo_staged" by (simp add: demo_staged_def)
  have c: "count_list (Advance # replicate 559 Ms) Ms < 560 \<and> count_list (Advance # replicate 559 Ms) Ms = 559"
    by (simp add: count_list_replicate_same)
  have d: "clock (step demo_cfg (ProbeDone 1 DecodeError) demo_probing) = 0"
    by (simp add: step_def probe_done_def demo_probing_def demo_staged_def demo_cfg_def)
  have r: "\<And>E. shown E = 1 \<and> incoming E = None \<Longrightarrow> E = \<lparr>shown = 1, incoming = None\<rparr>" by simp
  show ?thesis
    using commit_exactly_once_after_hold[OF a b demo_ready, of "Advance # replicate 559 Ms"] a b c d demo_ready
    by (simp add: demo_probing_def demo_staged_def r)
qed

section \<open>The shown video during the hold\<close>

lemma ready_render_calls:
  assumes d: "cfg_variant cfg = Defensive" and v: "is_video_shown cfg s"
      and i: "incoming (eng s) = Some inc" and u: "\<not> ready inc" and r: "ready_render cfg s inc s'"
  shows "video_calls s' = video_calls s @ [Pause, Pause] \<and> \<not> play_timer s'"
proof -
  from r obtain old new where
    f: "s' = flush cfg old new" "eng old = eng s"
       "eng new = (eng s)\<lparr>incoming := Some (inc\<lparr>ready := True\<rparr>)\<rparr>"
       "now_playing old = now_playing s" "now_playing new = now_playing s"
       "video_calls new = video_calls s"
    unfolding ready_render_def by blast
  have cd: "commit_deps cfg new \<noteq> commit_deps cfg old" using f i u by (simp add: commit_deps_def)
  have pd: "play_deps cfg new \<noteq> play_deps cfg old" using f i u d by (simp add: play_deps_def)
  have vn: "is_video_shown cfg new" using v f by (simp add: is_video_shown_def)
  have rn: "ready_now new" using f by (simp add: ready_now_def)
  show ?thesis using cd pd vn rn d f(1,6) by (simp add: flush_video_calls flush_play_timer)
qed

lemma handler_quiet:
  assumes i: "incoming (eng s) = Some inc" and r: "ready inc" and p: "\<not> play_timer s" and e: "e \<noteq> Ms"
  shows "video_calls (handler cfg e s) = video_calls s \<and> \<not> play_timer (handler cfg e s)"
proof (cases "\<exists>g out. e = ProbeDone g out")
  case True
  then show ?thesis using probe_done_ready[OF i r] p by auto
next
  case False
  then show ?thesis using i p e by (cases e) (simp_all add: timer_armed_def)
qed

lemma quiet_event:
  assumes q: "quiet s E inc due" and d: "cfg_variant cfg = Defensive" and e: "e \<noteq> Ms"
  shows "quiet (step cfg e s) E inc due
       \<and> (\<exists>ps. video_calls (step cfg e s) = video_calls s @ ps \<and> Play \<notin> set ps)"
proof -
  have h: "holding s E inc due" and p: "\<not> play_timer s" using q by (simp_all add: quiet_def)
  have i: "incoming (eng s) = Some inc" "ready inc" using h by (simp_all add: holding_def)
  note k = handler_holding[OF i e, of cfg]
  note c = handler_quiet[OF i p e, of cfg]
  have st: "step cfg e s = flush cfg s (handler cfg e s)" using e by (simp add: step_def)
  have cd: "commit_deps cfg (handler cfg e s) = commit_deps cfg s"
    using k by (simp add: commit_deps_def is_video_shown_def)
  have rn: "ready_now (handler cfg e s)" using k i by (simp add: ready_now_def)
  have pt: "\<not> play_timer (step cfg e s)" using c rn d by (simp add: st flush_play_timer)
  have vc: "\<exists>ps. video_calls (step cfg e s) = video_calls s @ ps \<and> Play \<notin> set ps"
    using c cd rn d by (simp add: st flush_video_calls)
  show ?thesis using holding_event[OF h e, of cfg] pt vc by (simp add: quiet_def)
qed

lemma fallback_fire_quiet:
  assumes "incoming (eng s) = Some inc" "ready inc"
  shows "video_calls (fire_fallback cfg s) = video_calls s
       \<and> play_timer (fire_fallback cfg s) = play_timer s"
proof (cases "fallback s = Some (clock s)")
  case False
  then show ?thesis by (simp add: fire_fallback_def)
next
  case True
  have m: "markReady (\<not> probe_live s) (eng s) = eng s"
    using assms by (simp add: markReady_def set_ready_def)
  have "flush cfg (s\<lparr>fallback := None\<rparr>) (s\<lparr>fallback := None, eng := eng s\<rparr>)
          = s\<lparr>fallback := None, eng := eng s\<rparr>"
    by (rule flush_id) simp_all
  then show ?thesis using True m by (simp add: fire_fallback_def)
qed

lemma quiet_ms:
  assumes q: "quiet s E inc due" and n: "due \<noteq> clock s + 1"
  shows "quiet (step cfg Ms s) E inc due \<and> video_calls (step cfg Ms s) = video_calls s"
proof -
  have h: "holding s E inc due" and p: "\<not> play_timer s" using q by (simp_all add: quiet_def)
  define w where "w = s\<lparr>clock := clock s + 1\<rparr>"
  define f where "f = fire_fallback cfg w"
  have i: "incoming (eng w) = Some inc" "ready inc" using h by (simp_all add: holding_def w_def)
  note a = fallback_fire_ready[OF i, of cfg]
  note b = fallback_fire_quiet[OF i, of cfg]
  have ct: "commit_timer f = Some (due, inc)" "clock f = clock s + 1"
    using a h by (simp_all add: f_def w_def holding_def)
  have "fire_commit cfg f = f" using ct n by (simp add: fire_commit_def)
  then have st: "step cfg Ms s = f" by (simp add: step_def f_def w_def)
  have "video_calls f = video_calls s \<and> \<not> play_timer f" using b p by (simp add: f_def w_def)
  then show ?thesis using holding_ms[OF h, of cfg] n by (simp add: quiet_def st)
qed

lemma quiet_run:
  "quiet s E inc due \<Longrightarrow> cfg_variant cfg = Defensive \<Longrightarrow> clock s + count_list tr Ms < due \<Longrightarrow>
   quiet (run cfg tr s) E inc due
   \<and> (\<exists>ps. video_calls (run cfg tr s) = video_calls s @ ps \<and> Play \<notin> set ps)"
proof (induction tr arbitrary: s)
  case Nil
  then show ?case by simp
next
  case (Cons e es)
  have h: "holding s E inc due" using Cons.prems(1) by (simp add: quiet_def)
  show ?case
  proof (cases "e = Ms")
    case True
    have ne: "due \<noteq> clock s + 1" using Cons.prems(3) True by simp
    note m = quiet_ms[OF Cons.prems(1) ne, of cfg]
    note c = holding_ms[OF h, of cfg]
    have "clock (step cfg Ms s) + count_list es Ms < due" using Cons.prems(3) True c by simp
    from Cons.IH[OF _ Cons.prems(2) this] m show ?thesis using True by auto
  next
    case False
    note m = quiet_event[OF Cons.prems(1,2) False]
    note c = holding_event[OF h False, of cfg]
    then obtain ps where ps: "video_calls (step cfg e s) = video_calls s @ ps" "Play \<notin> set ps"
      using m by blast
    have "clock (step cfg e s) + count_list es Ms < due" using Cons.prems(3) False c by simp
    from Cons.IH[OF _ Cons.prems(2) this] m
    obtain qs where qs: "quiet (run cfg es (step cfg e s)) E inc due"
      "video_calls (run cfg es (step cfg e s)) = video_calls (step cfg e s) @ qs" "Play \<notin> set qs"
      by blast
    have "video_calls (run cfg (e # es) s) = video_calls s @ (ps @ qs) \<and> Play \<notin> set (ps @ qs)"
      using ps qs by simp
    then show ?thesis using qs(1) by (intro conjI exI[of _ "ps @ qs"]) simp_all
  qed
qed

text \<open>
  C8. In the first implementation, when an event makes the incoming ready while the
  shown item is a video, the render of that very instant pauses the shown video (the
  commit effect and the play effect each call \<^verbatim>\<open>pause\<close>) and leaves no play pending;
  and through every sequence of events in which fewer than 560 ms pass the flag stays
  true, every further call on the shown video is a pause, and no play is pending.
\<close>

theorem shown_video_paused_on_readiness:
  assumes "cfg_variant cfg = Defensive" and "is_video_shown cfg s"
      and "incoming (eng s) = Some inc" and "\<not> ready inc"
      and "ready_now (step cfg e s)"
      and "count_list tr Ms < 560"
  shows "video_calls (step cfg e s) = video_calls s @ [Pause, Pause]
       \<and> \<not> play_timer (step cfg e s)
       \<and> ready_now (run cfg tr (step cfg e s))
       \<and> (\<exists>ps. video_calls (run cfg tr (step cfg e s)) = video_calls (step cfg e s) @ ps \<and> Play \<notin> set ps)
       \<and> \<not> play_timer (run cfg tr (step cfg e s))"
proof -
  define s1 where "s1 = step cfg e s"
  define E where "E = (eng s)\<lparr>incoming := Some (inc\<lparr>ready := True\<rparr>)\<rparr>"
  define i where "i = inc\<lparr>ready := True\<rparr>"
  note rr = becomes_ready[OF assms(3,4,5)]
  have h1: "holding s1 E i (clock s1 + 560)"
    unfolding s1_def E_def i_def by (rule ready_render_holding[OF assms(3,4) rr])
  have c1: "video_calls s1 = video_calls s @ [Pause, Pause] \<and> \<not> play_timer s1"
    unfolding s1_def by (rule ready_render_calls[OF assms(1,2,3,4) rr])
  then have q: "quiet s1 E i (clock s1 + 560)" using h1 by (simp add: quiet_def)
  have "clock s1 + count_list tr Ms < clock s1 + 560" using assms(6) by simp
  note qr = quiet_run[OF q assms(1) this]
  then have "ready_now (run cfg tr s1)" by (simp add: quiet_def holding_def ready_now_def)
  then show ?thesis using c1 qr unfolding s1_def by (simp add: quiet_def)
qed

theorem shown_video_paused_on_readiness_witness:
  "cfg_variant demo_cfg = Defensive \<and> is_video_shown demo_cfg demo_probing
   \<and> ready_now (step demo_cfg (ProbeDone 1 DecodeError) demo_probing)
   \<and> video_calls (step demo_cfg (ProbeDone 1 DecodeError) demo_probing) = [Play, Pause, Pause]
   \<and> (\<exists>ps. video_calls (run demo_cfg (PlayingProp False # replicate 559 Ms)
                 (step demo_cfg (ProbeDone 1 DecodeError) demo_probing)) = [Play, Pause, Pause] @ ps
           \<and> Play \<notin> set ps)"
proof -
  have v: "cfg_variant demo_cfg = Defensive" by (simp add: demo_cfg_def)
  have a: "incoming (eng demo_probing) = Some demo_staged" by (simp add: demo_probing_def)
  have b: "\<not> ready demo_staged" by (simp add: demo_staged_def)
  have c: "count_list (PlayingProp False # replicate 559 Ms) Ms < 560"
    by (simp add: count_list_replicate_same)
  have p: "video_calls demo_probing = [Play]" by (simp add: demo_probing_def)
  show ?thesis
    using shown_video_paused_on_readiness[OF v conjunct2[OF demo_shown_video] a b demo_ready c]
      v demo_shown_video demo_ready p
    by auto
qed

end
